theory Spec2Isabelle
  imports Complex_Main "HOL-Library.Log_Nat"
begin

section \<open>Urlaubsplaner: business days and the concurrent-vacation check\<close>

text \<open>
  A shallow embedding of \<^verbatim>\<open>calculate_business_days\<close> and
  \<^verbatim>\<open>check_concurrent_vacations\<close> of \<^verbatim>\<open>backend/server.py\<close>, together with the parts of
  Python they rest on: \<^verbatim>\<open>datetime.date\<close> (ordinals, weekdays, adding a day) and
  binary64 floating point (true division of integers, multiplication, \<^verbatim>\<open>int()\<close>,
  \<^verbatim>\<open>round(x, 1)\<close>).
\<close>

subsection \<open>Python exceptions\<close>

datatype error = OverflowError | ZeroDivisionError

subsection \<open>\<^verbatim>\<open>datetime.date\<close>\<close>

text \<open>
  A date is represented by its proleptic Gregorian ordinal (\<^verbatim>\<open>date.toordinal()\<close>):
  0001-01-01 is day 1 and \<^verbatim>\<open>date.max\<close> = 9999-12-31 is day 3652059. Comparison of dates
  is comparison of ordinals. The ISO strings that the service stores
  (\<^verbatim>\<open>isoformat()\<close>, zero padded) are ordered like the dates they denote, so the
  string comparison of the database query is modelled by the same comparison.
\<close>

type_synonym date = int


definition MAXORDINAL :: int where
  "MAXORDINAL = 3652059"


definition is_leap :: "int \<Rightarrow> bool" where
  "is_leap year = (year mod 4 = 0 \<and> (year mod 100 \<noteq> 0 \<or> year mod 400 = 0))"

definition days_before_year :: "int \<Rightarrow> int" where
  "days_before_year year =
     (let y = year - 1 in y * 365 + y div 4 - y div 100 + y div 400)"

definition days_before_month :: "int \<Rightarrow> int \<Rightarrow> int" where
  "days_before_month year month =
     [0, 31, 59, 90, 120, 151, 181, 212, 243, 273, 304, 334] ! nat (month - 1)
       + (if month > 2 \<and> is_leap year then 1 else 0)"

text \<open>\<^verbatim>\<open>_ymd2ord\<close>: the ordinal of a calendar date, for \<open>1 \<le> month \<le> 12\<close>.\<close>

definition ymd2ord :: "int \<Rightarrow> int \<Rightarrow> int \<Rightarrow> date" where
  "ymd2ord year month day = days_before_year year + days_before_month year month + day"

text \<open>\<^verbatim>\<open>date.weekday()\<close>: 0 is Monday, 6 is Sunday.\<close>

definition weekday :: "date \<Rightarrow> int" where
  "weekday d = (d + 6) mod 7"

text \<open>
  \<^verbatim>\<open>d + timedelta(days=1)\<close> raises \<^verbatim>\<open>OverflowError\<close> when the result is past
  \<^verbatim>\<open>date.max\<close>.
\<close>

definition add_one_day :: "date \<Rightarrow> error + date" where
  "add_one_day d = (if d + 1 > MAXORDINAL then Inl OverflowError else Inr (d + 1))"

subsection \<open>Binary64 floating point\<close>

text \<open>
  A finite float is represented by the rational number it denotes. \<open>round_to_double\<close>
  is IEEE 754 round-to-nearest, ties-to-even, to a 53-bit significand with the binary64
  exponent range (subnormals included); a result of magnitude \<open>2 ^ 1024\<close> or more is an
  infinity.
\<close>

datatype pyfloat = Finite rat | PosInf | NegInf

definition pow2 :: "int \<Rightarrow> rat" where
  "pow2 k = (if 0 \<le> k then 2 ^ nat k else 1 / 2 ^ nat (- k))"

text \<open>\<open>ilog2 q\<close> is \<open>\<lfloor>log\<^sub>2 \<bar>q\<bar>\<rfloor>\<close> for \<open>q \<noteq> 0\<close>.\<close>

definition ilog2 :: "rat \<Rightarrow> int" where
  "ilog2 q =
     (let k = bitlen (fst (quotient_of \<bar>q\<bar>)) - bitlen (snd (quotient_of \<bar>q\<bar>))
      in if pow2 k \<le> \<bar>q\<bar> then k else k - 1)"

definition round_half_even :: "rat \<Rightarrow> int" where
  "round_half_even q =
     (let f = \<lfloor>q\<rfloor>; r = q - of_int f
      in if r < 1 / 2 then f
         else if 1 / 2 < r then f + 1
         else if even f then f else f + 1)"

definition round_to_double :: "rat \<Rightarrow> pyfloat" where
  "round_to_double q =
     (if q = 0 then Finite 0
      else
        let e = max (ilog2 q) (- 1022);
            u = pow2 (e - 52);
            r = of_int (round_half_even (q / u)) * u
        in if pow2 1024 \<le> \<bar>r\<bar> then (if 0 < q then PosInf else NegInf)
           else Finite r)"

text \<open>\<^verbatim>\<open>a / b\<close> on integers: the correctly rounded quotient.\<close>

definition int_true_divide :: "int \<Rightarrow> int \<Rightarrow> error + rat" where
  "int_true_divide a b =
     (if b = 0 then Inl ZeroDivisionError
      else case round_to_double (of_int a / of_int b) of
             Finite r \<Rightarrow> Inr r
           | PosInf \<Rightarrow> Inl OverflowError
           | NegInf \<Rightarrow> Inl OverflowError)"

text \<open>The conversion of an integer operand to a float.\<close>

definition float_of_int :: "int \<Rightarrow> error + rat" where
  "float_of_int n =
     (case round_to_double (of_int n) of
        Finite r \<Rightarrow> Inr r
      | PosInf \<Rightarrow> Inl OverflowError
      | NegInf \<Rightarrow> Inl OverflowError)"

text \<open>\<^verbatim>\<open>x * n\<close> for a float \<open>x\<close> and an integer \<open>n\<close>; the product may overflow to an infinity.\<close>

definition float_mul_int :: "rat \<Rightarrow> int \<Rightarrow> error + pyfloat" where
  "float_mul_int x n =
     (case float_of_int n of
        Inl err \<Rightarrow> Inl err
      | Inr t \<Rightarrow> Inr (round_to_double (x * t)))"

text \<open>\<^verbatim>\<open>int(x)\<close>: truncation towards zero.\<close>

definition int_of_float :: "pyfloat \<Rightarrow> error + int" where
  "int_of_float x =
     (case x of
        Finite q \<Rightarrow> Inr (if 0 \<le> q then \<lfloor>q\<rfloor> else \<lceil>q\<rceil>)
      | PosInf \<Rightarrow> Inl OverflowError
      | NegInf \<Rightarrow> Inl OverflowError)"

text \<open>
  \<^verbatim>\<open>round(x, 1)\<close>: the exact value of the float is rounded to one decimal digit, ties to
  even, and the decimal result is converted back to the nearest float.
\<close>

definition py_round1 :: "pyfloat \<Rightarrow> error + pyfloat" where
  "py_round1 x =
     (case x of
        Finite q \<Rightarrow>
          (case round_to_double (of_int (round_half_even (q * 10)) / 10) of
             Finite r \<Rightarrow> Inr (Finite r)
           | PosInf \<Rightarrow> Inl OverflowError
           | NegInf \<Rightarrow> Inl OverflowError)
      | PosInf \<Rightarrow> Inr PosInf
      | NegInf \<Rightarrow> Inr NegInf)"

subsection \<open>\<^verbatim>\<open>calculate_business_days\<close>\<close>

function calculate_business_days_loop :: "date \<Rightarrow> date \<Rightarrow> int \<Rightarrow> error + int" where
  "calculate_business_days_loop current_date end_dt business_days =
     (if current_date \<le> end_dt then
        (if current_date + 1 > MAXORDINAL then Inl OverflowError
         else calculate_business_days_loop (current_date + 1) end_dt
                (if weekday current_date < 5 then business_days + 1 else business_days))
      else Inr business_days)"
  by pat_completeness auto
termination
  by (relation "measure (\<lambda>(c, e, b). nat (e - c + 1))") auto

declare calculate_business_days_loop.simps [simp del]

definition calculate_business_days :: "date \<Rightarrow> date \<Rightarrow> error + int" where
  "calculate_business_days start_dt end_dt = calculate_business_days_loop start_dt end_dt 0"

subsection \<open>Documents and settings\<close>

datatype VacationType = URLAUB | KRANKHEIT | SONDERURLAUB

text \<open>
  A document of the collection \<^verbatim>\<open>vacation_entries\<close>, with the keys that the check reads
  (\<^verbatim>\<open>id\<close> is called \<open>entry_id\<close> here).
\<close>

record VacationEntry =
  entry_id :: string
  employee_id :: string
  start_date :: date
  end_date :: date
  vacation_type :: VacationType

record CompanySettings =
  max_concurrent_percentage :: int
  max_concurrent_fixed :: "int option"

text \<open>\<^verbatim>\<open>CompanySettings()\<close>: the defaults of the class.\<close>

definition default_settings :: CompanySettings where
  "default_settings = \<lparr>max_concurrent_percentage = 30, max_concurrent_fixed = None\<rparr>"

text \<open>The dictionary that \<^verbatim>\<open>check_concurrent_vacations\<close> returns.\<close>

record verdict =
  is_valid :: bool
  max_concurrent_count :: int
  max_allowed :: int
  max_concurrent_day :: "date option"
  percentage :: pyfloat
  total_employees :: int

subsection \<open>\<^verbatim>\<open>check_concurrent_vacations\<close>\<close>

text \<open>
  The overlap query. \<^verbatim>\<open>if exclude_entry_id:\<close> is Python truthiness: \<^verbatim>\<open>None\<close> and the
  empty string add no condition on the id.
\<close>

definition overlap_query :: "date \<Rightarrow> date \<Rightarrow> string option \<Rightarrow> VacationEntry \<Rightarrow> bool" where
  "overlap_query start_dt end_dt exclude_entry_id v =
     (start_date v \<le> end_dt \<and> end_date v \<ge> start_dt \<and> vacation_type v = URLAUB \<and>
      (case exclude_entry_id of
         None \<Rightarrow> True
       | Some x \<Rightarrow> (if x \<noteq> [] then entry_id v \<noteq> x else True)))"

text \<open>\<^verbatim>\<open>db.vacation_entries.find(overlap_query).to_list(1000)\<close>: at most 1000 documents.\<close>

definition overlapping_vacations ::
  "VacationEntry list \<Rightarrow> date \<Rightarrow> date \<Rightarrow> string option \<Rightarrow> VacationEntry list" where
  "overlapping_vacations vacation_entries start_dt end_dt exclude_entry_id =
     take 1000 (filter (overlap_query start_dt end_dt exclude_entry_id) vacation_entries)"

text \<open>The inner \<^verbatim>\<open>for vacation in overlapping_vacations\<close> loop of one day.\<close>

fun daily_count_loop :: "date \<Rightarrow> VacationEntry list \<Rightarrow> int \<Rightarrow> int" where
  "daily_count_loop current_date [] daily_count = daily_count"
| "daily_count_loop current_date (vacation # rest) daily_count =
     daily_count_loop current_date rest
       (if start_date vacation \<le> current_date \<and> current_date \<le> end_date vacation
        then daily_count + 1 else daily_count)"

text \<open>
  The body of the \<^verbatim>\<open>while\<close> loop for one day, on the pair
  \<open>(max_concurrent_day, max_concurrent_count)\<close>.
\<close>

definition check_day :: "VacationEntry list \<Rightarrow> date \<Rightarrow> date option \<times> int \<Rightarrow> date option \<times> int" where
  "check_day vacations current_date peak =
     (if weekday current_date < 5 then
        (let daily_count = daily_count_loop current_date vacations 0 + 1
         in if daily_count > snd peak then (Some current_date, daily_count) else peak)
      else peak)"

function check_days_loop ::
  "VacationEntry list \<Rightarrow> date \<Rightarrow> date \<Rightarrow> date option \<times> int \<Rightarrow> error + date option \<times> int" where
  "check_days_loop vacations current_date end_dt peak =
     (if current_date \<le> end_dt then
        (if current_date + 1 > MAXORDINAL then Inl OverflowError
         else check_days_loop vacations (current_date + 1) end_dt
                (check_day vacations current_date peak))
      else Inr peak)"
  by pat_completeness auto
termination
  by (relation "measure (\<lambda>(v, c, e, p). nat (e - c + 1))") auto

declare check_days_loop.simps [simp del]

text \<open>\<^verbatim>\<open>if settings.max_concurrent_fixed:\<close> is truthiness: \<^verbatim>\<open>None\<close> and 0 are false.\<close>

definition fixed_cap :: "CompanySettings \<Rightarrow> int option" where
  "fixed_cap settings =
     (case max_concurrent_fixed settings of
        None \<Rightarrow> None
      | Some f \<Rightarrow> (if f \<noteq> 0 then Some f else None))"

text \<open>\<^verbatim>\<open>max(1, int((settings.max_concurrent_percentage / 100) * total_employees))\<close>\<close>

definition percentage_cap :: "CompanySettings \<Rightarrow> int \<Rightarrow> error + int" where
  "percentage_cap settings headcount =
     (case int_true_divide (max_concurrent_percentage settings) 100 of
        Inl err \<Rightarrow> Inl err
      | Inr share \<Rightarrow>
          (case float_mul_int share headcount of
             Inl err \<Rightarrow> Inl err
           | Inr product \<Rightarrow>
               (case int_of_float product of
                  Inl err \<Rightarrow> Inl err
                | Inr n \<Rightarrow> Inr (max 1 n))))"

definition compute_max_allowed :: "CompanySettings \<Rightarrow> int \<Rightarrow> error + int" where
  "compute_max_allowed settings headcount =
     (case fixed_cap settings of
        Some f \<Rightarrow> Inr f
      | None \<Rightarrow> (if headcount > 0 then percentage_cap settings headcount else Inr 1))"

text \<open>
  \<^verbatim>\<open>round((max_concurrent_count / max(total_employees, 1)) * 100, 1) if total_employees > 0 else 0\<close>.
  The integer 0 of the \<^verbatim>\<open>else\<close> branch is represented by the float of the same value.
\<close>

definition compute_percentage :: "int \<Rightarrow> int \<Rightarrow> error + pyfloat" where
  "compute_percentage max_count headcount =
     (if headcount > 0 then
        (case int_true_divide max_count (max headcount 1) of
           Inl err \<Rightarrow> Inl err
         | Inr ratio \<Rightarrow>
             (case float_mul_int ratio 100 of
                Inl err \<Rightarrow> Inl err
              | Inr x \<Rightarrow> py_round1 x))
      else Inr (Finite 0))"

text \<open>
  The function, with the two database reads (the collection of vacation documents and
  \<^verbatim>\<open>total_employees\<close>, the count of employee documents, here \<open>headcount\<close>) and the
  settings object as parameters.
\<close>

definition check_concurrent_vacations_with ::
  "CompanySettings \<Rightarrow> VacationEntry list \<Rightarrow> int \<Rightarrow> date \<Rightarrow> date \<Rightarrow> string option
     \<Rightarrow> error + verdict" where
  "check_concurrent_vacations_with settings vacation_entries headcount start_dt end_dt exclude_entry_id =
     (case check_days_loop
             (overlapping_vacations vacation_entries start_dt end_dt exclude_entry_id)
             start_dt end_dt (None, 0) of
        Inl err \<Rightarrow> Inl err
      | Inr peak \<Rightarrow>
          (case compute_max_allowed settings headcount of
             Inl err \<Rightarrow> Inl err
           | Inr allowed \<Rightarrow>
               (case compute_percentage (snd peak) headcount of
                  Inl err \<Rightarrow> Inl err
                | Inr pct \<Rightarrow>
                    Inr \<lparr>is_valid = (snd peak \<le> allowed),
                         max_concurrent_count = snd peak,
                         max_allowed = allowed,
                         max_concurrent_day = fst peak,
                         percentage = pct,
                         total_employees = headcount\<rparr>)))"

text \<open>The function as the service runs it: \<^verbatim>\<open>settings = CompanySettings()\<close>.\<close>

definition check_concurrent_vacations ::
  "VacationEntry list \<Rightarrow> int \<Rightarrow> date \<Rightarrow> date \<Rightarrow> string option \<Rightarrow> error + verdict" where
  "check_concurrent_vacations =
     check_concurrent_vacations_with default_settings"

subsection \<open>Notions of the specification\<close>

text \<open>
  \<open>businessDaysOf\<close>: the business days (Monday to Friday) of a range, in increasing
  order. The code has no such function; its loops test \<^verbatim>\<open>weekday() < 5\<close> day by day.
\<close>

definition business_days_of :: "date \<Rightarrow> date \<Rightarrow> date list" where
  "business_days_of start_dt end_dt = filter (\<lambda>d. weekday d < 5) [start_dt..end_dt]"

text \<open>An entry contains a day when its range spans it.\<close>

definition on_vacation :: "date \<Rightarrow> VacationEntry \<Rightarrow> bool" where
  "on_vacation d v = (start_date v \<le> d \<and> d \<le> end_date v)"

text \<open>
  The count of one day: the filtered entries that contain the day, plus 1 for the
  candidate.
\<close>

definition day_count :: "VacationEntry list \<Rightarrow> date \<Rightarrow> int" where
  "day_count vacations d = int (length (filter (on_vacation d) vacations)) + 1"

text \<open>One business day of the peak search, on the pair (peak day, peak count).\<close>

definition peak_step :: "VacationEntry list \<Rightarrow> date option \<times> int \<Rightarrow> date \<Rightarrow> date option \<times> int" where
  "peak_step vs peak d = (if snd peak < day_count vs d then (Some d, day_count vs d) else peak)"

text \<open>The peak of a range: the search over its business days, from \<open>(None, 0)\<close>.\<close>

definition range_peak :: "VacationEntry list \<Rightarrow> date \<Rightarrow> date \<Rightarrow> date option \<times> int" where
  "range_peak vs s e = foldl (peak_step vs) (None, 0) (business_days_of s e)"

text \<open>
  The percentage as the specification words it,
  \<open>round(peakCount / max(totalEmployees, 1) * 100, 1 decimal)\<close>, with the arithmetic of the
  code and without a test of the headcount.
\<close>

definition spec_peak_percentage :: "int \<Rightarrow> int \<Rightarrow> error + pyfloat" where
  "spec_peak_percentage peak_count headcount =
     (case int_true_divide peak_count (max headcount 1) of
        Inl err \<Rightarrow> Inl err
      | Inr ratio \<Rightarrow>
          (case float_mul_int ratio 100 of
             Inl err \<Rightarrow> Inl err
           | Inr x \<Rightarrow> py_round1 x))"

text \<open>A vacation entry (category \<open>URLAUB\<close>) whose range covers the range from \<open>s\<close> to \<open>e\<close>.\<close>

definition covers :: "date \<Rightarrow> date \<Rightarrow> VacationEntry \<Rightarrow> bool" where
  "covers s e v = (vacation_type v = URLAUB \<and> start_date v \<le> s \<and> e \<le> end_date v)"

text \<open>A sample vacation document for the week of 2025-06-16 (ordinals 739418 to 739422).\<close>

definition june_entry :: "string \<Rightarrow> VacationEntry" where
  "june_entry i =
     \<lparr>entry_id = i, employee_id = i, start_date = 739418, end_date = 739422,
      vacation_type = URLAUB\<rparr>"

section \<open>Properties\<close>

subsection \<open>The loops over the days of a range\<close>

lemma upto_rec_le: "c \<le> e \<Longrightarrow> [c..e] = c # [c + 1..e]"
  by (simp add: upto_rec1)

lemma business_days_of_rec:
  "c \<le> e \<Longrightarrow> business_days_of c e =
     (if weekday c < 5 then c # business_days_of (c + 1) e else business_days_of (c + 1) e)"
  by (simp add: business_days_of_def upto_rec_le)

lemma business_days_of_empty: "e < c \<Longrightarrow> business_days_of c e = []"
  by (simp add: business_days_of_def)

lemma cbd_loop_count:
  "e < MAXORDINAL \<Longrightarrow>
   calculate_business_days_loop c e b = Inr (b + int (length (business_days_of c e)))"
proof (induction c e b rule: calculate_business_days_loop.induct)
  case (1 c e b)
  show ?case
  proof (cases "c \<le> e")
    case True
    with "1.prems" have no: "\<not> c + 1 > MAXORDINAL" by simp
    from "1.IH"[OF True no "1.prems"] True no show ?thesis
      by (subst calculate_business_days_loop.simps) (simp add: business_days_of_rec)
  next
    case False
    then show ?thesis
      by (subst calculate_business_days_loop.simps) (simp add: business_days_of_empty)
  qed
qed

lemma cbd_loop_reversed: "e < c \<Longrightarrow> calculate_business_days_loop c e b = Inr b"
  by (subst calculate_business_days_loop.simps) simp

lemma cbd_loop_overflow:
  "c \<le> e \<Longrightarrow> MAXORDINAL \<le> e \<Longrightarrow> calculate_business_days_loop c e b = Inl OverflowError"
proof (induction c e b rule: calculate_business_days_loop.induct)
  case (1 c e b)
  show ?case
  proof (cases "c + 1 > MAXORDINAL")
    case True
    with "1.prems" show ?thesis by (subst calculate_business_days_loop.simps) simp
  next
    case False
    with "1.prems" have "c + 1 \<le> e" by simp
    from "1.IH"[OF "1.prems"(1) False this "1.prems"(2)] "1.prems" False show ?thesis
      by (subst calculate_business_days_loop.simps) simp
  qed
qed

lemma daily_count_loop_eq:
  "daily_count_loop d vs acc = acc + int (length (filter (on_vacation d) vs))"
  by (induction vs arbitrary: acc) (simp_all add: on_vacation_def)

lemma check_day_eq:
  "check_day vs d peak = (if weekday d < 5 then peak_step vs peak d else peak)"
  by (simp add: check_day_def peak_step_def day_count_def daily_count_loop_eq Let_def)

lemma check_days_loop_fold:
  "e < MAXORDINAL \<Longrightarrow>
   check_days_loop vs c e peak = Inr (foldl (peak_step vs) peak (business_days_of c e))"
proof (induction vs c e peak rule: check_days_loop.induct)
  case (1 vs c e peak)
  show ?case
  proof (cases "c \<le> e")
    case True
    with "1.prems" have no: "\<not> c + 1 > MAXORDINAL" by simp
    have "check_days_loop vs c e peak = check_days_loop vs (c + 1) e (check_day vs c peak)"
      using True no by (subst check_days_loop.simps) simp
    also have "\<dots> = Inr (foldl (peak_step vs) (check_day vs c peak) (business_days_of (c + 1) e))"
      by (rule "1.IH"[OF True no "1.prems"])
    also have "foldl (peak_step vs) (check_day vs c peak) (business_days_of (c + 1) e)
                 = foldl (peak_step vs) peak (business_days_of c e)"
      by (simp add: business_days_of_rec[OF True] check_day_eq)
    finally show ?thesis .
  next
    case False
    then show ?thesis
      by (subst check_days_loop.simps) (simp add: business_days_of_empty)
  qed
qed

lemma check_days_loop_reversed: "e < c \<Longrightarrow> check_days_loop vs c e peak = Inr peak"
  by (subst check_days_loop.simps) simp

lemma check_days_loop_overflow:
  "c \<le> e \<Longrightarrow> MAXORDINAL \<le> e \<Longrightarrow> check_days_loop vs c e peak = Inl OverflowError"
proof (induction vs c e peak rule: check_days_loop.induct)
  case (1 vs c e peak)
  show ?case
  proof (cases "c + 1 > MAXORDINAL")
    case True
    with "1.prems" show ?thesis by (subst check_days_loop.simps) simp
  next
    case False
    with "1.prems" have "c + 1 \<le> e" by simp
    from "1.IH"[OF "1.prems"(1) False this "1.prems"(2)] "1.prems" False show ?thesis
      by (subst check_days_loop.simps) simp
  qed
qed

subsection \<open>Rounding to binary64\<close>

lemma pow2_powi: "pow2 k = 2 powi k"
  by (simp add: pow2_def power_int_def inverse_eq_divide power_one_over)

lemma pow2_pos: "0 < pow2 k"
  by (simp add: pow2_powi zero_less_power_int)

lemma pow2_add: "pow2 (a + b) = pow2 a * pow2 b"
  by (simp add: pow2_powi power_int_add)

lemma pow2_mono: "a \<le> b \<Longrightarrow> pow2 a \<le> pow2 b"
  by (simp add: pow2_powi power_int_increasing)

lemma pow2_strict_mono: "a < b \<Longrightarrow> pow2 a < pow2 b"
  by (simp add: pow2_powi power_int_strict_increasing)

lemma pow2_le_iff: "pow2 a \<le> pow2 b \<longleftrightarrow> a \<le> b"
  using pow2_mono[of a b] pow2_strict_mono[of b a] by (auto simp: not_le[symmetric])

lemma pow2_nat: "0 \<le> k \<Longrightarrow> pow2 k = of_int (2 ^ nat k)"
  by (simp add: pow2_def)

lemma ilog2_lower:
  assumes "q \<noteq> 0"
  shows "pow2 (ilog2 q) \<le> \<bar>q\<bar>"
proof -
  obtain a b where ab: "quotient_of \<bar>q\<bar> = (a, b)" by (cases "quotient_of \<bar>q\<bar>")
  then have b: "0 < b" and q: "\<bar>q\<bar> = of_int a / of_int b"
    by (simp_all add: quotient_of_denom_pos quotient_of_div)
  have a: "0 < a"
  proof (rule ccontr)
    assume "\<not> 0 < a"
    then have "of_int a / of_int b \<le> (0::rat)"
      using b by (simp add: divide_nonpos_pos)
    with q assms show False by simp
  qed
  define k where "k = bitlen a - bitlen b"
  show ?thesis
  proof (cases "pow2 k \<le> \<bar>q\<bar>")
    case True
    then show ?thesis by (simp add: ilog2_def ab k_def)
  next
    case False
    have la: "1 \<le> bitlen a" using a bitlen_eq_zero_iff[of a] bitlen_nonneg[of a] by linarith
    have lb: "1 \<le> bitlen b" using b bitlen_eq_zero_iff[of b] bitlen_nonneg[of b] by linarith
    from bitlen_bounds[OF a] have "pow2 (bitlen a - 1) \<le> of_int a"
      using la by (simp add: pow2_nat)
    moreover from bitlen_bounds[OF b] have "of_int b \<le> pow2 (bitlen b)"
      using lb by (simp add: pow2_nat less_imp_le)
    moreover have "pow2 (k - 1) * pow2 (bitlen b) = pow2 (bitlen a - 1)"
      by (simp add: pow2_add[symmetric] k_def)
    ultimately have "pow2 (k - 1) * of_int b \<le> of_int a"
      by (smt (verit) mult_left_mono pow2_pos less_imp_le order_trans)
    then have "pow2 (k - 1) \<le> \<bar>q\<bar>"
      using b by (simp add: q pos_le_divide_eq)
    with False show ?thesis by (simp add: ilog2_def ab k_def)
  qed
qed

lemma ilog2_le: "q \<noteq> 0 \<Longrightarrow> \<bar>q\<bar> \<le> pow2 k \<Longrightarrow> ilog2 q \<le> k"
  using ilog2_lower[of q] pow2_le_iff[of "ilog2 q" k] by linarith

lemma round_half_even_floor: "round_half_even q = \<lfloor>q\<rfloor> \<or> round_half_even q = \<lfloor>q\<rfloor> + 1"
  by (simp add: round_half_even_def Let_def)

lemma round_half_even_of_int: "round_half_even (of_int n) = n"
  by (simp add: round_half_even_def)

lemma round_half_even_abs_le:
  assumes "\<bar>x\<bar> \<le> of_int N"
  shows "\<bar>round_half_even x\<bar> \<le> N"
proof -
  from assms have lo: "- of_int N \<le> x" and hi: "x \<le> of_int N" by linarith+
  from lo have "- N \<le> \<lfloor>x\<rfloor>" by (simp add: le_floor_iff)
  then have 1: "- N \<le> round_half_even x" using round_half_even_floor[of x] by linarith
  have 2: "round_half_even x \<le> N"
  proof (cases "x = of_int N")
    case True
    then show ?thesis by (simp add: round_half_even_of_int)
  next
    case False
    with hi have "x < of_int N" by simp
    then have "\<lfloor>x\<rfloor> < N" by (simp add: floor_less_iff)
    then show ?thesis using round_half_even_floor[of x] by linarith
  qed
  from 1 2 show ?thesis by linarith
qed

lemma round_to_double_finite:
  assumes "\<bar>q\<bar> \<le> pow2 k" and "- 1022 \<le> k" and "k \<le> 1023"
  shows "\<exists>r. round_to_double q = Finite r \<and> \<bar>r\<bar> \<le> pow2 k"
proof (cases "q = 0")
  case True
  then show ?thesis using pow2_pos[of k] by (simp add: round_to_double_def less_imp_le)
next
  case False
  define e where "e = max (ilog2 q) (- 1022)"
  define u where "u = pow2 (e - 52)"
  define N :: int where "N = 2 ^ nat (k - e + 52)"
  define r where "r = of_int (round_half_even (q / u)) * u"
  have ek: "e \<le> k" using ilog2_le[OF False assms(1)] assms(2) by (simp add: e_def)
  have u: "0 < u" by (simp add: u_def pow2_pos)
  have "pow2 (k - e + 52) * pow2 (e - 52) = pow2 k"
    by (simp add: pow2_add[symmetric])
  then have Nu: "of_int N * u = pow2 k"
    using ek by (simp add: N_def u_def pow2_nat)
  have "\<bar>q / u\<bar> \<le> of_int N"
    using assms(1) u Nu by (simp add: pos_divide_le_eq abs_divide)
  then have "\<bar>round_half_even (q / u)\<bar> \<le> N" by (rule round_half_even_abs_le)
  then have "\<bar>of_int (round_half_even (q / u)) :: rat\<bar> \<le> of_int N"
    by (metis of_int_abs of_int_le_iff)
  then have "\<bar>r\<bar> \<le> of_int N * u"
    using u by (simp add: r_def abs_mult mult_right_mono)
  then have rk: "\<bar>r\<bar> \<le> pow2 k" by (simp add: Nu)
  have "pow2 k < pow2 1024"
    using assms(3) pow2_le_iff[of 1024 k] by (simp add: not_le[symmetric])
  with rk have "\<not> pow2 1024 \<le> \<bar>r\<bar>" by linarith
  then have "round_to_double q = Finite r"
    using False by (simp add: round_to_double_def Let_def e_def u_def r_def)
  with rk show ?thesis by blast
qed

subsection \<open>The peak of a range\<close>

lemma day_count_pos: "1 \<le> day_count vs d"
  by (simp add: day_count_def)

lemma day_count_le: "day_count vs d \<le> int (length vs) + 1"
  by (simp add: day_count_def)

lemma Max_insert_insert:
  "finite S \<Longrightarrow> Max (insert a (insert b S)) = Max (insert (max a b) S)"
  for a b :: int
proof (cases "S = {}")
  case True
  then show ?thesis by simp
next
  case False
  assume "finite S"
  with False show ?thesis by (simp add: max.assoc)
qed

lemma snd_peak_step: "snd (peak_step vs peak x) = max (snd peak) (day_count vs x)"
  by (simp add: peak_step_def)

lemma foldl_peak_step_snd:
  "snd (foldl (peak_step vs) peak ds) = Max (insert (snd peak) (day_count vs ` set ds))"
proof (induction ds arbitrary: peak)
  case Nil
  then show ?case by simp
next
  case (Cons x xs)
  have "snd (foldl (peak_step vs) peak (x # xs))
          = Max (insert (max (snd peak) (day_count vs x)) (day_count vs ` set xs))"
    using Cons.IH[of "peak_step vs peak x"] by (simp add: snd_peak_step)
  also have "\<dots> = Max (insert (snd peak) (insert (day_count vs x) (day_count vs ` set xs)))"
    by (rule Max_insert_insert[symmetric]) simp
  finally show ?case by simp
qed

lemma foldl_peak_step_unchanged:
  "\<forall>d\<in>set ds. day_count vs d \<le> snd peak \<Longrightarrow> foldl (peak_step vs) peak ds = peak"
  by (induction ds arbitrary: peak) (simp_all add: peak_step_def)

lemma foldl_peak_step_fst:
  "\<exists>d\<in>set ds. snd peak < day_count vs d \<Longrightarrow>
   fst (foldl (peak_step vs) peak ds) =
     List.find (\<lambda>d. day_count vs d = Max (insert (snd peak) (day_count vs ` set ds))) ds"
proof (induction ds arbitrary: peak)
  case Nil
  then show ?case by simp
next
  case (Cons x xs)
  define M where "M = Max (insert (snd peak) (day_count vs ` set (x # xs)))"
  define p' where "p' = peak_step vs peak x"
  have fold_eq: "foldl (peak_step vs) peak (x # xs) = foldl (peak_step vs) p' xs"
    by (simp only: foldl_Cons p'_def)
  have M_snd: "M = snd (foldl (peak_step vs) p' xs)"
    unfolding M_def fold_eq[symmetric] by (rule foldl_peak_step_snd[symmetric])
  then have M_p': "M = Max (insert (snd p') (day_count vs ` set xs))"
    by (simp only: foldl_peak_step_snd)
  have M_ge: "day_count vs d \<le> M" if "d \<in> set (x # xs)" for d
    unfolding M_def by (rule Max_ge) (use that in auto)
  from Cons.prems obtain d0 where d0: "d0 \<in> set (x # xs)" "snd peak < day_count vs d0" by blast
  with M_ge[of d0] have M_gt: "snd peak < M" by linarith
  have goal: "fst (foldl (peak_step vs) p' xs) = List.find (\<lambda>d. day_count vs d = M) (x # xs)"
  proof (cases "snd peak < day_count vs x")
    case True
    then have p': "p' = (Some x, day_count vs x)" by (simp add: p'_def peak_step_def)
    show ?thesis
    proof (cases "\<exists>d\<in>set xs. day_count vs x < day_count vs d")
      case True
      then obtain d1 where "d1 \<in> set xs" "day_count vs x < day_count vs d1" by blast
      with M_ge[of d1] have ne: "day_count vs x \<noteq> M" by simp
      from True have "\<exists>d\<in>set xs. snd p' < day_count vs d" by (simp add: p')
      from Cons.IH[OF this] have "fst (foldl (peak_step vs) p' xs) = List.find (\<lambda>d. day_count vs d = M) xs"
        by (simp only: M_p'[symmetric])
      with ne show ?thesis by simp
    next
      case False
      then have all: "\<forall>d\<in>set xs. day_count vs d \<le> snd p'" by (auto simp: p')
      have same: "foldl (peak_step vs) p' xs = p'" by (rule foldl_peak_step_unchanged[OF all])
      have "M = snd p'" by (simp only: M_snd same)
      then have "M = day_count vs x" by (simp add: p')
      moreover have "fst (foldl (peak_step vs) p' xs) = fst p'" by (simp only: same)
      moreover have "fst p' = Some x" by (simp add: p')
      ultimately show ?thesis by simp
    qed
  next
    case False
    then have p': "p' = peak" by (simp add: p'_def peak_step_def)
    from False d0 have ex: "\<exists>d\<in>set xs. snd peak < day_count vs d" by auto
    from False M_gt have ne: "day_count vs x \<noteq> M" by linarith
    from Cons.IH[OF ex] have "fst (foldl (peak_step vs) peak xs) = List.find (\<lambda>d. day_count vs d = M) xs"
      using M_p' by (simp only: p')
    with ne show ?thesis by (simp add: p')
  qed
  show ?case unfolding fold_eq M_def[symmetric] by (rule goal)
qed

lemma sorted_business_days_of: "sorted_wrt (<) (business_days_of s e)"
  unfolding business_days_of_def
  by (rule sorted_wrt_filter) (simp add: sorted_wrt_upto)


lemma find_first_sorted:
  fixes ds :: "date list"
  assumes "sorted_wrt (<) ds" and "List.find P ds = Some d"
  shows "d \<in> set ds \<and> P d \<and> (\<forall>d'\<in>set ds. d' < d \<longrightarrow> \<not> P d')"
  using assms
proof (induction ds)
  case Nil
  then show ?case by simp
next
  case (Cons x xs)
  from Cons.prems(1) have sx: "sorted_wrt (<) xs" and lt: "\<forall>y\<in>set xs. x < y" by simp_all
  show ?case
  proof (cases "P x")
    case True
    with Cons.prems(2) have "d = x" by simp
    with True lt show ?thesis by fastforce
  next
    case False
    with Cons.prems(2) have "List.find P xs = Some d" by simp
    from Cons.IH[OF sx this] False show ?thesis by simp
  qed
qed

subsection \<open>The floating-point steps succeed on bounded operands\<close>

lemma int_true_divide_ok:
  assumes "b \<noteq> 0" and "\<bar>of_int a / of_int b :: rat\<bar> \<le> pow2 k" and "- 1022 \<le> k" and "k \<le> 1023"
  shows "\<exists>r. int_true_divide a b = Inr r \<and> \<bar>r\<bar> \<le> pow2 k"
proof -
  from round_to_double_finite[OF assms(2-4)] obtain r
    where "round_to_double (of_int a / of_int b) = Finite r" "\<bar>r\<bar> \<le> pow2 k" by blast
  with assms(1) show ?thesis by (simp add: int_true_divide_def)
qed

lemma float_of_int_ok:
  assumes "\<bar>of_int n :: rat\<bar> \<le> pow2 k" and "- 1022 \<le> k" and "k \<le> 1023"
  shows "\<exists>t. float_of_int n = Inr t \<and> \<bar>t\<bar> \<le> pow2 k"
proof -
  from round_to_double_finite[OF assms] obtain r
    where "round_to_double (of_int n) = Finite r" "\<bar>r\<bar> \<le> pow2 k" by blast
  then show ?thesis by (simp add: float_of_int_def)
qed

lemma float_mul_int_ok:
  assumes "\<bar>x\<bar> \<le> pow2 j" and "\<bar>of_int n :: rat\<bar> \<le> pow2 k"
    and "- 1022 \<le> k" and "k \<le> 1023" and "- 1022 \<le> j + k" and "j + k \<le> 1023"
  shows "\<exists>r. float_mul_int x n = Inr (Finite r) \<and> \<bar>r\<bar> \<le> pow2 (j + k)"
proof -
  from float_of_int_ok[OF assms(2-4)] obtain t
    where t: "float_of_int n = Inr t" "\<bar>t\<bar> \<le> pow2 k" by blast
  have "\<bar>x * t\<bar> \<le> pow2 j * pow2 k"
    unfolding abs_mult using assms(1) t(2) by (intro mult_mono) (simp_all add: less_imp_le pow2_pos)
  then have "\<bar>x * t\<bar> \<le> pow2 (j + k)" by (simp add: pow2_add)
  from round_to_double_finite[OF this assms(5,6)] obtain r
    where "round_to_double (x * t) = Finite r" "\<bar>r\<bar> \<le> pow2 (j + k)" by blast
  with t(1) show ?thesis by (simp add: float_mul_int_def)
qed

lemma py_round1_ok:
  assumes "\<bar>q\<bar> \<le> pow2 k" and "0 \<le> k" and "k \<le> 1019"
  shows "\<exists>r. py_round1 (Finite q) = Inr (Finite r)"
proof -
  define N :: int where "N = 2 ^ nat (k + 4)"
  have N: "of_int N = pow2 (k + 4)" using assms(2) by (simp add: N_def pow2_nat)
  have "pow2 4 = 16" by (simp add: pow2_def)
  then have "pow2 (k + 4) = pow2 k * 16" by (simp add: pow2_add)
  with assms(1) have "\<bar>q * 10\<bar> \<le> of_int N"
    using pow2_pos[of k] by (simp add: N abs_mult)
  then have "\<bar>round_half_even (q * 10)\<bar> \<le> N" by (rule round_half_even_abs_le)
  then have "\<bar>of_int (round_half_even (q * 10)) :: rat\<bar> \<le> of_int N"
    by (metis of_int_abs of_int_le_iff)
  then have "\<bar>of_int (round_half_even (q * 10)) / 10 :: rat\<bar> \<le> pow2 (k + 4)"
    using pow2_pos[of "k + 4"] by (simp add: N)
  from round_to_double_finite[OF this] assms(2,3) obtain r
    where "round_to_double (of_int (round_half_even (q * 10)) / 10) = Finite r" by auto
  then show ?thesis by (simp add: py_round1_def)
qed

lemma compute_percentage_ok:
  assumes "0 \<le> c" and "c \<le> 1024"
  shows "\<exists>x. compute_percentage c h = Inr (Finite x)"
proof (cases "0 < h")
  case False
  then show ?thesis by (simp add: compute_percentage_def)
next
  case True
  then have m: "max h 1 = h" by simp
  have "\<bar>of_int c / of_int h :: rat\<bar> \<le> of_int c"
    using True assms(1) by (simp add: pos_divide_le_eq mult_le_cancel_left1)
  also have "\<dots> \<le> pow2 10" using assms(2) by (simp add: pow2_def)
  finally have "\<bar>of_int c / of_int h :: rat\<bar> \<le> pow2 10" .
  from int_true_divide_ok[OF _ this] True obtain ratio
    where r: "int_true_divide c h = Inr ratio" "\<bar>ratio\<bar> \<le> pow2 10" by auto
  have "\<bar>of_int 100 :: rat\<bar> \<le> pow2 7" by (simp add: pow2_def)
  from float_mul_int_ok[OF r(2) this] obtain x
    where x: "float_mul_int ratio 100 = Inr (Finite x)" "\<bar>x\<bar> \<le> pow2 (10 + 7)" by auto
  from py_round1_ok[OF x(2)] obtain y where "py_round1 (Finite x) = Inr (Finite y)" by auto
  with r(1) x(1) True show ?thesis by (simp add: compute_percentage_def m)
qed

lemma percentage_cap_ok:
  assumes "0 \<le> max_concurrent_percentage settings" and "max_concurrent_percentage settings \<le> 100"
    and "0 \<le> headcount" and "headcount \<le> 2 ^ 1023"
  shows "\<exists>m. percentage_cap settings headcount = Inr m \<and> 1 \<le> m"
proof -
  let ?p = "max_concurrent_percentage settings"
  have "\<bar>of_int ?p / of_int 100 :: rat\<bar> \<le> pow2 0"
    using assms(1,2) by (simp add: pow2_def)
  from int_true_divide_ok[OF _ this] obtain share
    where s: "int_true_divide ?p 100 = Inr share" "\<bar>share\<bar> \<le> pow2 0" by auto
  have "(of_int headcount :: rat) \<le> of_int (2 ^ 1023)"
    using assms(4) by (simp only: of_int_le_iff)
  then have "\<bar>of_int headcount :: rat\<bar> \<le> pow2 1023"
    using assms(3) by (simp add: pow2_def)
  from float_mul_int_ok[OF s(2) this] obtain x
    where x: "float_mul_int share headcount = Inr (Finite x)" by auto
  show ?thesis
    by (simp add: percentage_cap_def s(1) x int_of_float_def)
qed

lemma compute_max_allowed_ok:
  assumes "0 \<le> max_concurrent_percentage settings" and "max_concurrent_percentage settings \<le> 100"
    and "headcount \<le> 2 ^ 1023"
  shows "\<exists>m. compute_max_allowed settings headcount = Inr m"
proof (cases "fixed_cap settings = None \<and> 0 < headcount")
  case True
  with percentage_cap_ok[OF assms(1,2) _ assms(3)] show ?thesis
    by (auto simp: compute_max_allowed_def)
next
  case False
  then show ?thesis by (auto simp: compute_max_allowed_def split: option.splits)
qed

lemma length_overlapping_vacations:
  "length (overlapping_vacations entries s e ex) \<le> 1000"
  by (simp add: overlapping_vacations_def)

lemma peak_count_bounds:
  assumes "length vs \<le> 1000"
  shows "0 \<le> snd (foldl (peak_step vs) (None, 0) ds) \<and> snd (foldl (peak_step vs) (None, 0) ds) \<le> 1024"
proof -
  have "snd (foldl (peak_step vs) (None, 0) ds) \<in> insert 0 (day_count vs ` set ds)"
    unfolding foldl_peak_step_snd by (simp only: snd_conv) (rule Max_in, simp_all)
  moreover have "0 \<le> day_count vs d \<and> day_count vs d \<le> 1024" for d
    using day_count_pos[of vs d] day_count_le[of vs d] assms by linarith
  ultimately show ?thesis by auto
qed

subsection \<open>The verdict\<close>

lemma check_days_loop_peak:
  assumes "e < MAXORDINAL \<or> e < s"
  shows "check_days_loop vs s e peak = Inr (foldl (peak_step vs) peak (business_days_of s e))"
proof (cases "e < s")
  case True
  then show ?thesis by (simp add: check_days_loop_reversed business_days_of_empty)
next
  case False
  with assms have "e < MAXORDINAL" by simp
  then show ?thesis by (rule check_days_loop_fold)
qed

lemma check_with_verdict:
  assumes "e < MAXORDINAL \<or> e < s"
    and "compute_max_allowed settings headcount = Inr m"
  shows "\<exists>pct. compute_percentage (snd (range_peak (overlapping_vacations entries s e ex) s e)) headcount = Inr pct \<and>
     check_concurrent_vacations_with settings entries headcount s e ex =
       Inr \<lparr>is_valid = (snd (range_peak (overlapping_vacations entries s e ex) s e) \<le> m),
            max_concurrent_count = snd (range_peak (overlapping_vacations entries s e ex) s e),
            max_allowed = m,
            max_concurrent_day = fst (range_peak (overlapping_vacations entries s e ex) s e),
            percentage = pct,
            total_employees = headcount\<rparr>"
proof -
  let ?vs = "overlapping_vacations entries s e ex"
  have loop: "check_days_loop ?vs s e (None, 0) = Inr (range_peak ?vs s e)"
    unfolding range_peak_def by (rule check_days_loop_peak[OF assms(1)])
  have b: "0 \<le> snd (range_peak ?vs s e) \<and> snd (range_peak ?vs s e) \<le> 1024"
    unfolding range_peak_def by (rule peak_count_bounds[OF length_overlapping_vacations])
  from compute_percentage_ok[OF conjunct1[OF b] conjunct2[OF b], of headcount]
  obtain x where pct: "compute_percentage (snd (range_peak ?vs s e)) headcount = Inr (Finite x)" ..
  show ?thesis
    unfolding check_concurrent_vacations_with_def loop assms(2) sum.case pct
    by blast
qed

subsection \<open>Evaluating the rounding\<close>

lemma ilog2_upper:
  assumes "q \<noteq> 0"
  shows "\<bar>q\<bar> < pow2 (ilog2 q + 1)"
proof -
  obtain a b where ab: "quotient_of \<bar>q\<bar> = (a, b)" by (cases "quotient_of \<bar>q\<bar>")
  then have b: "0 < b" and q: "\<bar>q\<bar> = of_int a / of_int b"
    by (simp_all add: quotient_of_denom_pos quotient_of_div)
  have a: "0 < a"
  proof (rule ccontr)
    assume "\<not> 0 < a"
    then have "of_int a / of_int b \<le> (0::rat)"
      using b by (simp add: divide_nonpos_pos)
    with q assms show False by simp
  qed
  define k where "k = bitlen a - bitlen b"
  show ?thesis
  proof (cases "pow2 k \<le> \<bar>q\<bar>")
    case False
    then show ?thesis by (simp add: ilog2_def ab k_def)
  next
    case True
    have la: "1 \<le> bitlen a" using a bitlen_eq_zero_iff[of a] bitlen_nonneg[of a] by linarith
    have lb: "1 \<le> bitlen b" using b bitlen_eq_zero_iff[of b] bitlen_nonneg[of b] by linarith
    from bitlen_bounds[OF a] have "(of_int a :: rat) < of_int (2 ^ nat (bitlen a))"
      by (simp only: of_int_less_iff)
    then have 1: "of_int a < pow2 (bitlen a)"
      using la by (simp add: pow2_nat)
    from bitlen_bounds[OF b] have "(of_int (2 ^ nat (bitlen b - 1)) :: rat) \<le> of_int b"
      by (simp only: of_int_le_iff)
    then have 2: "pow2 (bitlen b - 1) \<le> of_int b"
      using lb by (simp add: pow2_nat)
    have 3: "pow2 (k + 1) * pow2 (bitlen b - 1) = pow2 (bitlen a)"
      by (simp add: pow2_add[symmetric] k_def)
    have "pow2 (k + 1) * pow2 (bitlen b - 1) \<le> pow2 (k + 1) * of_int b"
      using 2 pow2_pos[of "k + 1"] by (simp add: mult_left_mono less_imp_le)
    with 1 3 have "of_int a < pow2 (k + 1) * of_int b" by linarith
    then have "\<bar>q\<bar> < pow2 (k + 1)"
      using b by (simp add: q pos_divide_less_eq)
    with True show ?thesis by (simp add: ilog2_def ab k_def)
  qed
qed

lemma pow2_less_iff: "pow2 a < pow2 b \<longleftrightarrow> a < b"
  using pow2_le_iff[of b a] by (auto simp: not_le[symmetric])

lemma ilog2_unique:
  assumes "pow2 e \<le> \<bar>q\<bar>" and "\<bar>q\<bar> < pow2 (e + 1)"
  shows "ilog2 q = e"
proof -
  from assms(1) pow2_pos[of e] have q: "q \<noteq> 0" by auto
  from ilog2_lower[OF q] assms(2) have "pow2 (ilog2 q) < pow2 (e + 1)" by linarith
  then have 1: "ilog2 q < e + 1" by (simp only: pow2_less_iff)
  from ilog2_upper[OF q] assms(1) have "pow2 e < pow2 (ilog2 q + 1)" by linarith
  then have 2: "e < ilog2 q + 1" by (simp only: pow2_less_iff)
  from 1 2 show ?thesis by linarith
qed

lemma round_to_double_normal:
  assumes "pow2 e \<le> \<bar>q\<bar>" and "\<bar>q\<bar> < pow2 (e + 1)" and "- 1022 \<le> e" and "e \<le> 1022"
  shows "round_to_double q = Finite (of_int (round_half_even (q / pow2 (e - 52))) * pow2 (e - 52))"
proof -
  from assms(1) pow2_pos[of e] have q: "q \<noteq> 0" by auto
  have il: "ilog2 q = e" by (rule ilog2_unique[OF assms(1,2)])
  have le: "\<bar>q\<bar> \<le> pow2 (e + 1)" using assms(2) by simp
  from round_to_double_finite[OF le] assms(3,4) obtain r where r: "round_to_double q = Finite r"
    by auto
  have m: "max e (- 1022) = e" using assms(3) by simp
  from r show ?thesis
    using q by (simp add: round_to_double_def il m Let_def split: if_splits)
qed

lemma round_half_even_nearest:
  assumes "of_int n - 1 / 2 < q" and "q < of_int n + 1 / 2"
  shows "round_half_even q = n"
proof (cases "of_int n \<le> q")
  case True
  with assms(2) have "\<lfloor>q\<rfloor> = n" by (simp add: floor_unique)
  with assms(2) show ?thesis by (simp add: round_half_even_def)
next
  case False
  with assms(1) have f: "\<lfloor>q\<rfloor> = n - 1" by (simp add: floor_unique)
  from assms(1) have "1 / 2 < q - of_int (n - 1)" by simp
  with f show ?thesis by (simp add: round_half_even_def)
qed

lemma round_to_double_eval:
  assumes "pow2 e \<le> \<bar>q\<bar>" and "\<bar>q\<bar> < pow2 (e + 1)" and "- 1022 \<le> e" and "e \<le> 1022"
    and "(of_int n - 1 / 2) * pow2 (e - 52) < q" and "q < (of_int n + 1 / 2) * pow2 (e - 52)"
  shows "round_to_double q = Finite (of_int n * pow2 (e - 52))"
proof -
  have "round_half_even (q / pow2 (e - 52)) = n"
    using assms(5,6) pow2_pos[of "e - 52"]
    by (intro round_half_even_nearest) (simp_all add: pos_less_divide_eq pos_divide_less_eq)
  with round_to_double_normal[OF assms(1-4)] show ?thesis by simp
qed

lemma round_to_double_0: "round_to_double 0 = Finite 0"
  by (simp add: round_to_double_def)

lemma round_to_double_int:
  assumes "\<bar>n\<bar> < 2 ^ 53"
  shows "round_to_double (of_int n) = Finite (of_int n)"
proof (cases "n = 0")
  case True
  then show ?thesis by (simp add: round_to_double_0)
next
  case False
  define q :: rat where "q = of_int n"
  define e where "e = ilog2 q"
  have q0: "q \<noteq> 0" using False by (simp add: q_def)
  have lo: "pow2 e \<le> \<bar>q\<bar>" unfolding e_def by (rule ilog2_lower[OF q0])
  have hi: "\<bar>q\<bar> < pow2 (e + 1)" unfolding e_def by (rule ilog2_upper[OF q0])
  have "(1::rat) \<le> \<bar>of_int n\<bar>" using False by (simp flip: of_int_abs)
  then have "pow2 0 \<le> \<bar>q\<bar>" by (simp add: pow2_def q_def)
  with hi have "pow2 0 < pow2 (e + 1)" by linarith
  then have "0 < e + 1" by (simp only: pow2_less_iff)
  then have e0: "0 \<le> e" by simp
  have "(of_int \<bar>n\<bar> :: rat) < of_int (2 ^ 53)" using assms by (simp only: of_int_less_iff)
  then have "\<bar>q\<bar> < pow2 53" by (simp add: q_def pow2_def)
  with lo have "pow2 e < pow2 53" by linarith
  then have "e < 53" by (simp only: pow2_less_iff)
  then have e52: "e \<le> 52" by simp
  define N :: int where "N = 2 ^ nat (52 - e)"
  have "pow2 (52 - e) * pow2 (e - 52) = pow2 0" by (simp add: pow2_add[symmetric])
  then have inv: "of_int N * pow2 (e - 52) = 1"
    using e52 by (simp add: N_def pow2_nat pow2_def)
  then have "q / pow2 (e - 52) = of_int (n * N)"
    using pow2_pos[of "e - 52"] by (simp add: q_def divide_eq_eq mult.assoc)
  then have "round_half_even (q / pow2 (e - 52)) = n * N"
    by (simp only: round_half_even_of_int)
  moreover have "of_int (n * N) * pow2 (e - 52) = q"
    using inv by (simp add: q_def mult.assoc)
  ultimately show ?thesis
    using round_to_double_normal[OF lo hi] e0 e52 by (simp add: q_def)
qed

lemma float_of_int_exact: "\<bar>n\<bar> < 2 ^ 53 \<Longrightarrow> float_of_int n = Inr (of_int n)"
  by (simp add: float_of_int_def round_to_double_int)

lemma share_30: "int_true_divide 30 100 = Inr (5404319552844595 / 18014398509481984)"
proof -
  have "round_to_double (3 / 10) = Finite (of_int 5404319552844595 * pow2 (- 2 - 52))"
    by (rule round_to_double_eval) (simp_all add: pow2_def)
  then show ?thesis by (simp add: int_true_divide_def pow2_def)
qed

lemma default_cap_20: "compute_max_allowed default_settings 20 = Inr 6"
proof -
  have "round_to_double (5404319552844595 / 18014398509481984 * 20)
          = Finite (of_int 6755399441055744 * pow2 (2 - 52))"
    by (rule round_to_double_eval) (simp_all add: pow2_def)
  then have "float_mul_int (5404319552844595 / 18014398509481984) 20 = Inr (Finite 6)"
    by (simp add: float_mul_int_def float_of_int_exact pow2_def)
  then show ?thesis
    by (simp add: compute_max_allowed_def fixed_cap_def default_settings_def percentage_cap_def
        share_30 int_of_float_def)
qed

subsection \<open>The scenario of June 2025\<close>

lemma june_16: "ymd2ord 2025 6 16 = 739418"
  by (simp add: ymd2ord_def days_before_year_def days_before_month_def is_leap_def)

lemma june_20: "ymd2ord 2025 6 20 = 739422"
  by (simp add: ymd2ord_def days_before_year_def days_before_month_def is_leap_def)

lemma june_week: "business_days_of 739418 739422 = [739418, 739419, 739420, 739421, 739422]"
  by (simp add: business_days_of_def upto_rec1 weekday_def)

lemma covering_overlapping:
  assumes "\<forall>v\<in>set L. covers s e v" and "s \<le> e" and "length L \<le> 1000"
  shows "overlapping_vacations L s e None = L"
proof -
  have "filter (overlap_query s e None) L = L"
    using assms(1,2) by (intro filter_True) (auto simp: overlap_query_def covers_def)
  with assms(3) show ?thesis by (simp add: overlapping_vacations_def)
qed

lemma covering_day_count:
  assumes "\<forall>v\<in>set L. covers s e v" and "s \<le> d" and "d \<le> e"
  shows "day_count L d = int (length L) + 1"
proof -
  have "filter (on_vacation d) L = L"
    using assms by (intro filter_True) (auto simp: on_vacation_def covers_def)
  then show ?thesis by (simp add: day_count_def)
qed

lemma covering_june_peak:
  assumes "\<forall>v\<in>set L. covers 739418 739422 v"
  shows "range_peak L 739418 739422 = (Some 739418, int (length L) + 1)"
proof -
  have "day_count L d = int (length L) + 1" if "739418 \<le> d" "d \<le> 739422" for d
    using covering_day_count[OF assms that] .
  then show ?thesis
    by (simp add: range_peak_def june_week peak_step_def)
qed

subsection \<open>The scenario of June 2025, continued\<close>

lemma max_ordinal: "ymd2ord 9999 12 31 = MAXORDINAL"
  by (simp add: ymd2ord_def days_before_year_def days_before_month_def is_leap_def MAXORDINAL_def)

lemma june_verdict:
  assumes "\<forall>v\<in>set L. covers 739418 739422 v" and "length L \<le> 1000"
  shows "\<exists>v. check_concurrent_vacations L 20 739418 739422 None = Inr v \<and>
           max_concurrent_count v = int (length L) + 1 \<and> max_allowed v = 6 \<and>
           max_concurrent_day v = Some 739418 \<and> is_valid v = (int (length L) + 1 \<le> 6)"
proof -
  have ov: "overlapping_vacations L 739418 739422 None = L"
    using assms by (intro covering_overlapping) simp_all
  have "739422 < MAXORDINAL \<or> (739422::int) < 739418" by (simp add: MAXORDINAL_def)
  from check_with_verdict[OF this default_cap_20, of L None]
  show ?thesis
    unfolding check_concurrent_vacations_def ov covering_june_peak[OF assms(1)]
    by auto
qed

subsection \<open>The count of business days\<close>

lemma calculate_business_days_count:
  "end_dt < MAXORDINAL \<Longrightarrow>
   calculate_business_days start_dt end_dt = Inr (int (length (business_days_of start_dt end_dt)))"
  by (simp add: calculate_business_days_def cbd_loop_count)

lemma calculate_business_days_reversed:
  "end_dt < start_dt \<Longrightarrow> calculate_business_days start_dt end_dt = Inr 0"
  by (simp add: calculate_business_days_def cbd_loop_reversed)

lemma calculate_business_days_overflow:
  "start_dt \<le> end_dt \<Longrightarrow> MAXORDINAL \<le> end_dt \<Longrightarrow>
   calculate_business_days start_dt end_dt = Inl OverflowError"
  by (simp add: calculate_business_days_def cbd_loop_overflow)

lemma length_business_days_of:
  "start_dt \<le> end_dt \<Longrightarrow> int (length (business_days_of start_dt end_dt)) \<le> end_dt - start_dt + 1"
proof -
  assume le: "start_dt \<le> end_dt"
  have "length (business_days_of start_dt end_dt) \<le> length [start_dt..end_dt]"
    unfolding business_days_of_def by (rule length_filter_le)
  also have "\<dots> = nat (end_dt - start_dt + 1)" by simp
  finally show ?thesis using le by simp
qed

lemma june_20_16: "calculate_business_days 739422 739418 = Inr 0"
  by (rule calculate_business_days_reversed) simp

text \<open>
  On a range with the start not after the end, a count that
  \<^verbatim>\<open>calculate_business_days\<close> returns lies between 0 and the number of calendar days of
  the range, and the function returns a count for every range that ends before
  \<^verbatim>\<open>date.max\<close>.
\<close>

lemma business_days_bounds:
  assumes "start_dt \<le> end_dt"
  shows "(\<forall>n. calculate_business_days start_dt end_dt = Inr n \<longrightarrow>
            0 \<le> n \<and> n \<le> end_dt - start_dt + 1) \<and>
         (end_dt < MAXORDINAL \<longrightarrow> (\<exists>n. calculate_business_days start_dt end_dt = Inr n))"
proof (cases "end_dt < MAXORDINAL")
  case True
  with calculate_business_days_count[OF True, of start_dt] length_business_days_of[OF assms]
  show ?thesis by auto
next
  case False
  with calculate_business_days_overflow[OF assms] show ?thesis by simp
qed

lemma business_days_bounds_example:
  "\<exists>n. calculate_business_days 739418 739424 = Inr n \<and> 0 \<le> n \<and> n \<le> 739424 - 739418 + 1"
proof -
  have "(739418::int) \<le> 739424" by simp
  from business_days_bounds[OF this] have
    "(\<forall>n. calculate_business_days 739418 739424 = Inr n \<longrightarrow> 0 \<le> n \<and> n \<le> 739424 - 739418 + 1) \<and>
     (\<exists>n. calculate_business_days 739418 739424 = Inr n)"
    by (simp add: MAXORDINAL_def)
  then show ?thesis by blast
qed

subsection \<open>Reading a verdict back\<close>

lemma check_days_loop_Inr:
  assumes "check_days_loop vs s e peak = Inr r"
  shows "(e < MAXORDINAL \<or> e < s) \<and> r = foldl (peak_step vs) peak (business_days_of s e)"
proof -
  have ok: "e < MAXORDINAL \<or> e < s"
  proof (rule ccontr)
    assume "\<not> (e < MAXORDINAL \<or> e < s)"
    then have "s \<le> e" "MAXORDINAL \<le> e" by simp_all
    from check_days_loop_overflow[OF this] assms show False by simp
  qed
  with check_days_loop_peak[OF ok, of vs peak] assms show ?thesis by simp
qed

lemma check_with_fields:
  assumes "check_concurrent_vacations_with settings entries headcount s e ex = Inr v"
  shows "(e < MAXORDINAL \<or> e < s) \<and>
         max_concurrent_day v = fst (range_peak (overlapping_vacations entries s e ex) s e) \<and>
         max_concurrent_count v = snd (range_peak (overlapping_vacations entries s e ex) s e) \<and>
         compute_max_allowed settings headcount = Inr (max_allowed v) \<and>
         compute_percentage (max_concurrent_count v) headcount = Inr (percentage v) \<and>
         is_valid v = (max_concurrent_count v \<le> max_allowed v) \<and>
         total_employees v = headcount"
proof -
  let ?vs = "overlapping_vacations entries s e ex"
  from assms obtain peak where loop: "check_days_loop ?vs s e (None, 0) = Inr peak"
    by (auto simp: check_concurrent_vacations_with_def split: sum.splits)
  from check_days_loop_Inr[OF loop] have ok: "e < MAXORDINAL \<or> e < s"
    and peak: "peak = range_peak ?vs s e" by (simp_all add: range_peak_def)
  from assms loop obtain m where m: "compute_max_allowed settings headcount = Inr m"
    by (auto simp: check_concurrent_vacations_with_def split: sum.splits)
  from assms loop m obtain pct where pct: "compute_percentage (snd peak) headcount = Inr pct"
    by (auto simp: check_concurrent_vacations_with_def split: sum.splits)
  from assms loop m pct have "v = \<lparr>is_valid = (snd peak \<le> m), max_concurrent_count = snd peak,
      max_allowed = m, max_concurrent_day = fst peak, percentage = pct, total_employees = headcount\<rparr>"
    by (simp add: check_concurrent_vacations_with_def)
  with ok peak m pct show ?thesis by simp
qed

lemma check_with_eval:
  assumes "e < MAXORDINAL \<or> e < s"
    and "range_peak (overlapping_vacations entries s e ex) s e = (d, c)"
    and "compute_max_allowed settings headcount = Inr m"
    and "compute_percentage c headcount = Inr pct"
  shows "check_concurrent_vacations_with settings entries headcount s e ex =
           Inr \<lparr>is_valid = (c \<le> m), max_concurrent_count = c, max_allowed = m,
                max_concurrent_day = d, percentage = pct, total_employees = headcount\<rparr>"
proof -
  have "check_days_loop (overlapping_vacations entries s e ex) s e (None, 0) = Inr (d, c)"
    using check_days_loop_peak[OF assms(1), of "overlapping_vacations entries s e ex" "(None, 0)"] assms(2)
    by (simp add: range_peak_def)
  then show ?thesis
    by (simp add: check_concurrent_vacations_with_def assms(3,4))
qed

lemma range_peak_first_max:
  assumes "business_days_of s e \<noteq> []"
  shows "snd (range_peak vs s e) = Max (day_count vs ` set (business_days_of s e))"
    and "fst (range_peak vs s e) =
           List.find (\<lambda>d. day_count vs d = Max (day_count vs ` set (business_days_of s e)))
             (business_days_of s e)"
proof -
  let ?days = "business_days_of s e"
  let ?S = "day_count vs ` set ?days"
  from assms obtain d0 where d0: "d0 \<in> set ?days" by (cases ?days) auto
  have ne: "?S \<noteq> {}" using d0 by auto
  have "day_count vs d0 \<le> Max ?S"
    by (rule Max_ge) (use d0 in simp_all)
  with day_count_pos[of vs d0] have "1 \<le> Max ?S" by linarith
  then have M: "Max (insert 0 ?S) = Max ?S"
    using ne by simp
  show "snd (range_peak vs s e) = Max ?S"
    unfolding range_peak_def foldl_peak_step_snd by (simp only: snd_conv M)
  have "\<exists>d\<in>set ?days. snd (None :: date option, 0 :: int) < day_count vs d"
    using d0 day_count_pos[of vs d0] by (intro bexI[of _ d0]) simp_all
  from foldl_peak_step_fst[OF this]
  show "fst (range_peak vs s e) = List.find (\<lambda>d. day_count vs d = Max ?S) ?days"
    unfolding range_peak_def by (simp only: snd_conv M)
qed

lemma range_peak_empty: "business_days_of s e = [] \<Longrightarrow> range_peak vs s e = (None, 0)"
  by (simp add: range_peak_def)

lemma compute_max_allowed_default_0: "compute_max_allowed default_settings 0 = Inr 1"
  by (simp add: compute_max_allowed_def fixed_cap_def default_settings_def)

lemma compute_percentage_nonpos: "headcount \<le> 0 \<Longrightarrow> compute_percentage c headcount = Inr (Finite 0)"
  by (simp add: compute_percentage_def)

text \<open>
  For a candidate range with start not after end and at least one business day, the
  peak day of a returned verdict is the first business day, in increasing date order,
  whose count (the filtered entries that contain the day, plus 1 for the candidate) is
  the maximum over the business days of the range; the peak count is that maximum, and
  every earlier business day has a smaller count. A verdict is returned whenever the
  range ends before \<^verbatim>\<open>date.max\<close> and the cap can be computed.
\<close>

lemma peak_day_is_first_maximum:
  assumes "start_dt \<le> end_dt" and "business_days_of start_dt end_dt \<noteq> []"
  shows "(\<forall>v. check_concurrent_vacations_with settings entries headcount start_dt end_dt ex = Inr v \<longrightarrow>
            max_concurrent_day v =
              List.find
                (\<lambda>d. day_count (overlapping_vacations entries start_dt end_dt ex) d =
                       Max (day_count (overlapping_vacations entries start_dt end_dt ex) `
                              set (business_days_of start_dt end_dt)))
                (business_days_of start_dt end_dt) \<and>
            (\<exists>d\<in>set (business_days_of start_dt end_dt).
                max_concurrent_day v = Some d \<and>
                max_concurrent_count v = day_count (overlapping_vacations entries start_dt end_dt ex) d \<and>
                (\<forall>d'\<in>set (business_days_of start_dt end_dt).
                    day_count (overlapping_vacations entries start_dt end_dt ex) d'
                      \<le> day_count (overlapping_vacations entries start_dt end_dt ex) d) \<and>
                (\<forall>d'\<in>set (business_days_of start_dt end_dt). d' < d \<longrightarrow>
                    day_count (overlapping_vacations entries start_dt end_dt ex) d'
                      < day_count (overlapping_vacations entries start_dt end_dt ex) d))) \<and>
         (end_dt < MAXORDINAL \<and> (\<exists>m. compute_max_allowed settings headcount = Inr m) \<longrightarrow>
            (\<exists>v. check_concurrent_vacations_with settings entries headcount start_dt end_dt ex = Inr v))"
proof -
  let ?vs = "overlapping_vacations entries start_dt end_dt ex"
  let ?days = "business_days_of start_dt end_dt"
  let ?M = "Max (day_count ?vs ` set ?days)"
  let ?P = "\<lambda>d. day_count ?vs d = ?M"
  have fin: "finite (day_count ?vs ` set ?days)" by simp
  have "?M \<in> day_count ?vs ` set ?days"
    using assms(2) by (intro Max_in) simp_all
  then obtain dm where dm: "dm \<in> set ?days" "day_count ?vs dm = ?M" by auto
  then have "\<exists>d. List.find ?P ?days = Some d"
    by (cases "List.find ?P ?days") (auto simp: find_None_iff)
  then obtain d where d: "List.find ?P ?days = Some d" by blast
  from find_first_sorted[OF sorted_business_days_of d]
  have d_in: "d \<in> set ?days" and d_max: "day_count ?vs d = ?M"
    and d_first: "\<forall>d'\<in>set ?days. d' < d \<longrightarrow> day_count ?vs d' \<noteq> ?M" by simp_all
  have le: "day_count ?vs d' \<le> ?M" if "d' \<in> set ?days" for d'
    by (rule Max_ge) (use that in simp_all)
  have first: "\<forall>v. check_concurrent_vacations_with settings entries headcount start_dt end_dt ex = Inr v \<longrightarrow>
      max_concurrent_day v = List.find ?P ?days \<and>
      (\<exists>d\<in>set ?days. max_concurrent_day v = Some d \<and> max_concurrent_count v = day_count ?vs d \<and>
         (\<forall>d'\<in>set ?days. day_count ?vs d' \<le> day_count ?vs d) \<and>
         (\<forall>d'\<in>set ?days. d' < d \<longrightarrow> day_count ?vs d' < day_count ?vs d))"
  proof (intro allI impI)
    fix v
    assume v: "check_concurrent_vacations_with settings entries headcount start_dt end_dt ex = Inr v"
    from check_with_fields[OF v] range_peak_first_max[OF assms(2), of ?vs]
    have day: "max_concurrent_day v = List.find ?P ?days" and cnt: "max_concurrent_count v = ?M"
      by simp_all
    have "max_concurrent_day v = Some d \<and> max_concurrent_count v = day_count ?vs d \<and>
         (\<forall>d'\<in>set ?days. day_count ?vs d' \<le> day_count ?vs d) \<and>
         (\<forall>d'\<in>set ?days. d' < d \<longrightarrow> day_count ?vs d' < day_count ?vs d)"
      using day cnt d d_max d_first le by (simp add: order.strict_iff_order)
    with d_in day show "max_concurrent_day v = List.find ?P ?days \<and>
      (\<exists>d\<in>set ?days. max_concurrent_day v = Some d \<and> max_concurrent_count v = day_count ?vs d \<and>
         (\<forall>d'\<in>set ?days. day_count ?vs d' \<le> day_count ?vs d) \<and>
         (\<forall>d'\<in>set ?days. d' < d \<longrightarrow> day_count ?vs d' < day_count ?vs d))"
      by blast
  qed
  have second: "end_dt < MAXORDINAL \<and> (\<exists>m. compute_max_allowed settings headcount = Inr m) \<longrightarrow>
      (\<exists>v. check_concurrent_vacations_with settings entries headcount start_dt end_dt ex = Inr v)"
  proof
    assume a: "end_dt < MAXORDINAL \<and> (\<exists>m. compute_max_allowed settings headcount = Inr m)"
    then obtain m where m: "compute_max_allowed settings headcount = Inr m" by blast
    from a have "end_dt < MAXORDINAL \<or> end_dt < start_dt" by simp
    from check_with_verdict[OF this m, of entries ex]
    show "\<exists>v. check_concurrent_vacations_with settings entries headcount start_dt end_dt ex = Inr v"
      by blast
  qed
  from first second show ?thesis by (rule conjI)
qed

lemma june_week_end: "business_days_of 739418 739424 = [739418, 739419, 739420, 739421, 739422]"
  by (simp add: business_days_of_def upto_rec1 weekday_def)

lemma peak_day_is_first_maximum_example:
  "\<exists>v. check_concurrent_vacations_with default_settings
          [\<lparr>entry_id = ''a'', employee_id = ''x'', start_date = 739420, end_date = 739422,
            vacation_type = URLAUB\<rparr>,
           \<lparr>entry_id = ''b'', employee_id = ''y'', start_date = 739421, end_date = 739424,
            vacation_type = URLAUB\<rparr>] 0 739418 739424 None = Inr v \<and>
        max_concurrent_day v = Some 739421 \<and> max_concurrent_count v = 3"
proof -
  let ?E = "[\<lparr>entry_id = ''a'', employee_id = ''x'', start_date = 739420, end_date = 739422,
            vacation_type = URLAUB\<rparr>,
           \<lparr>entry_id = ''b'', employee_id = ''y'', start_date = 739421, end_date = 739424,
            vacation_type = URLAUB\<rparr>]"
  have h1: "(739418::int) \<le> 739424" by simp
  have h2: "business_days_of 739418 739424 \<noteq> []" by (simp add: june_week_end)
  have ov: "overlapping_vacations ?E 739418 739424 None = ?E"
    by (simp add: overlapping_vacations_def overlap_query_def)
  have cnt: "day_count ?E 739418 = 1" "day_count ?E 739419 = 1" "day_count ?E 739420 = 2"
    "day_count ?E 739421 = 3" "day_count ?E 739422 = 3"
    by (simp_all add: day_count_def on_vacation_def)
  have ok: "739424 < MAXORDINAL \<and> (\<exists>m. compute_max_allowed default_settings 0 = Inr m)"
    by (simp add: MAXORDINAL_def compute_max_allowed_default_0)
  note inst = peak_day_is_first_maximum[OF h1 h2, of default_settings ?E 0 None]
  from inst ok obtain v where v: "check_concurrent_vacations_with default_settings ?E 0 739418 739424 None = Inr v"
    by blast
  from inst v have "max_concurrent_day v =
      List.find (\<lambda>d. day_count (overlapping_vacations ?E 739418 739424 None) d =
                     Max (day_count (overlapping_vacations ?E 739418 739424 None) `
                            set (business_days_of 739418 739424)))
        (business_days_of 739418 739424)"
    and "\<exists>d\<in>set (business_days_of 739418 739424). max_concurrent_day v = Some d \<and>
           max_concurrent_count v = day_count (overlapping_vacations ?E 739418 739424 None) d"
    by blast+
  then have "max_concurrent_day v = Some 739421" and "max_concurrent_count v = 3"
    by (auto simp: ov june_week_end cnt)
  with v show ?thesis by blast
qed

subsection \<open>The last day of the calendar\<close>

lemma check_with_overflow:
  assumes "s \<le> e" and "MAXORDINAL \<le> e"
  shows "check_concurrent_vacations_with settings entries headcount s e ex = Inl OverflowError"
  by (simp add: check_concurrent_vacations_with_def check_days_loop_overflow[OF assms])

lemma weekday_date_max: "weekday MAXORDINAL = 4"
  by (simp add: weekday_def MAXORDINAL_def)

lemma business_days_of_single: "weekday d < 5 \<Longrightarrow> business_days_of d d = [d]"
  by (simp add: business_days_of_def)

subsection \<open>One more entry\<close>

lemma overlapping_vacations_append:
  "overlapping_vacations (L @ [x]) s e ex =
     overlapping_vacations L s e ex
       @ take (1000 - length (filter (overlap_query s e ex) L)) (filter (overlap_query s e ex) [x])"
  by (simp only: overlapping_vacations_def filter_append take_append)

lemma day_count_append: "day_count vs d \<le> day_count (vs @ zs) d"
  by (simp add: day_count_def)

lemma range_peak_mono:
  assumes "\<And>d. day_count vs d \<le> day_count vs' d"
  shows "snd (range_peak vs s e) \<le> snd (range_peak vs' s e)"
proof -
  let ?days = "set (business_days_of s e)"
  let ?A = "insert 0 (day_count vs ` ?days)"
  let ?B = "insert 0 (day_count vs' ` ?days)"
  have "Max ?A \<le> Max ?B"
  proof (rule Max.boundedI)
    show "finite ?A" by simp
    show "?A \<noteq> {}" by simp
    fix a assume "a \<in> ?A"
    then consider "a = 0" | d where "d \<in> ?days" "a = day_count vs d" by auto
    then show "a \<le> Max ?B"
    proof cases
      case 1
      then show ?thesis by (intro Max_ge) simp_all
    next
      case 2
      have "day_count vs' d \<le> Max ?B" by (rule Max_ge) (use 2 in simp_all)
      with assms[of d] 2 show ?thesis by linarith
    qed
  qed
  then show ?thesis
    unfolding range_peak_def foldl_peak_step_snd by (simp only: snd_conv)
qed

text \<open>
  Wherever the check returns a verdict for a list of entries, it returns one for the list
  with one more entry, the peak count does not decrease, and an accepting verdict for
  the longer list implies an accepting verdict for the shorter one.
\<close>

lemma peak_count_monotone:
  assumes "check_concurrent_vacations_with settings L headcount s e ex = Inr v"
  shows "\<exists>v'. check_concurrent_vacations_with settings (L @ [x]) headcount s e ex = Inr v' \<and>
           max_concurrent_count v \<le> max_concurrent_count v' \<and>
           max_allowed v' = max_allowed v \<and>
           (is_valid v' \<longrightarrow> is_valid v)"
proof -
  let ?vs = "overlapping_vacations L s e ex"
  let ?vs' = "overlapping_vacations (L @ [x]) s e ex"
  from check_with_fields[OF assms] have ok: "e < MAXORDINAL \<or> e < s"
    and cnt: "max_concurrent_count v = snd (range_peak ?vs s e)"
    and cap: "compute_max_allowed settings headcount = Inr (max_allowed v)"
    and valid: "is_valid v = (max_concurrent_count v \<le> max_allowed v)"
    by simp_all
  have mono: "snd (range_peak ?vs s e) \<le> snd (range_peak ?vs' s e)"
    by (rule range_peak_mono) (simp only: overlapping_vacations_append[of L x] day_count_append)
  from check_with_verdict[OF ok cap, of "L @ [x]" ex] obtain v'
    where v': "check_concurrent_vacations_with settings (L @ [x]) headcount s e ex = Inr v'"
      and f: "max_concurrent_count v' = snd (range_peak ?vs' s e)" "max_allowed v' = max_allowed v"
        "is_valid v' = (snd (range_peak ?vs' s e) \<le> max_allowed v)"
    by auto
  from f cnt valid mono have "max_concurrent_count v \<le> max_concurrent_count v'"
    and "is_valid v' \<longrightarrow> is_valid v" by auto
  with v' f(2) show ?thesis by blast
qed

subsection \<open>Excluding an entry\<close>

lemma weekday_june_16: "weekday 739418 = 0"
  by (simp add: weekday_def)

lemma june_16_only: "business_days_of 739418 739418 = [739418]"
  by (rule business_days_of_single) (simp add: weekday_june_16)


subsection \<open>Ranges without a business day\<close>

lemma compute_percentage_zero: "compute_percentage 0 headcount = Inr (Finite 0)"
proof (cases "0 < headcount")
  case True
  then have "int_true_divide 0 (max headcount 1) = Inr 0"
    by (simp add: int_true_divide_def round_to_double_0)
  moreover have "float_mul_int 0 100 = Inr (Finite 0)"
    by (simp add: float_mul_int_def float_of_int_exact round_to_double_0)
  moreover have "py_round1 (Finite 0) = Inr (Finite 0)"
    by (simp add: py_round1_def round_half_even_def round_to_double_0)
  ultimately show ?thesis using True by (simp add: compute_percentage_def)
next
  case False
  then show ?thesis by (simp add: compute_percentage_def)
qed





subsection \<open>Headcounts that are not positive\<close>

lemma compute_max_allowed_nonpos:
  "headcount \<le> 0 \<Longrightarrow> fixed_cap settings = None \<Longrightarrow> compute_max_allowed settings headcount = Inr 1"
  by (simp add: compute_max_allowed_def)

subsection \<open>The percentage of the verdict\<close>

lemma round_to_double_1: "round_to_double 1 = Finite 1"
  using round_to_double_int[of 1] by simp

lemma round_to_double_100: "round_to_double 100 = Finite 100"
  using round_to_double_int[of 100] by simp

lemma spec_peak_percentage_1_0: "spec_peak_percentage 1 0 = Inr (Finite 100)"
proof -
  have "int_true_divide 1 (max 0 1) = Inr 1"
    by (simp add: int_true_divide_def round_to_double_1)
  moreover have "float_mul_int 1 100 = Inr (Finite 100)"
    by (simp add: float_mul_int_def float_of_int_exact round_to_double_100)
  moreover have "py_round1 (Finite 100) = Inr (Finite 100)"
    by (simp add: py_round1_def round_half_even_def round_to_double_100)
  ultimately show ?thesis by (simp add: spec_peak_percentage_def)
qed

lemma compute_percentage_pos:
  "0 < headcount \<Longrightarrow> compute_percentage c headcount = spec_peak_percentage c headcount"
  by (simp add: compute_percentage_def spec_peak_percentage_def)

lemma round_to_double_30: "round_to_double 30 = Finite 30"
  using round_to_double_int[of 30] by simp

lemma spec_peak_percentage_6_20: "spec_peak_percentage 6 20 = Inr (Finite 30)"
proof -
  have "round_to_double (3 / 10) = Finite (of_int 5404319552844595 * pow2 (- 2 - 52))"
    by (rule round_to_double_eval) (simp_all add: pow2_def)
  then have 1: "int_true_divide 6 (max 20 1) = Inr (5404319552844595 / 18014398509481984)"
    by (simp add: int_true_divide_def pow2_def)
  have "round_to_double (5404319552844595 / 18014398509481984 * 100)
          = Finite (of_int 8444249301319680 * pow2 (4 - 52))"
    by (rule round_to_double_eval) (simp_all add: pow2_def)
  then have 2: "float_mul_int (5404319552844595 / 18014398509481984) 100 = Inr (Finite 30)"
    by (simp add: float_mul_int_def float_of_int_exact pow2_def)
  have 3: "py_round1 (Finite 30) = Inr (Finite 30)"
    by (simp add: py_round1_def round_half_even_def round_to_double_30)
  from 1 2 3 show ?thesis by (simp add: spec_peak_percentage_def)
qed

subsection \<open>The cap of the default rule\<close>

lemma round_half_even_bounds:
  "q - 1 / 2 \<le> of_int (round_half_even q) \<and> of_int (round_half_even q) \<le> q + 1 / 2"
proof -
  have f1: "of_int \<lfloor>q\<rfloor> \<le> q" and f2: "q < of_int \<lfloor>q\<rfloor> + 1" by linarith+
  show ?thesis
  proof (cases "q - of_int \<lfloor>q\<rfloor> < 1 / 2")
    case True
    then have "(of_int (round_half_even q) :: rat) = of_int \<lfloor>q\<rfloor>"
      by (simp add: round_half_even_def)
    with True f1 show ?thesis by linarith
  next
    case False
    show ?thesis
    proof (cases "1 / 2 < q - of_int \<lfloor>q\<rfloor>")
      case True
      then have "round_half_even q = \<lfloor>q\<rfloor> + 1"
        by (simp add: round_half_even_def Let_def)
      then have "(of_int (round_half_even q) :: rat) = of_int \<lfloor>q\<rfloor> + 1" by simp
      with True f2 show ?thesis by linarith
    next
      case F2: False
      with False have half: "q - of_int \<lfloor>q\<rfloor> = 1 / 2" by linarith
      have "round_half_even q = \<lfloor>q\<rfloor> \<or> round_half_even q = \<lfloor>q\<rfloor> + 1"
        by (rule round_half_even_floor)
      then have "(of_int (round_half_even q) :: rat) = of_int \<lfloor>q\<rfloor> \<or>
                 (of_int (round_half_even q) :: rat) = of_int \<lfloor>q\<rfloor> + 1"
        by auto
      with half show ?thesis by auto
    qed
  qed
qed


subsection \<open>The cap of the verdict\<close>










subsection \<open>The percentage against exact arithmetic\<close>

lemma round_to_double_relative_error:
  assumes "pow2 (- 1022) \<le> q" and "q < pow2 1023"
  shows "\<exists>r. round_to_double q = Finite r \<and> \<bar>r - q\<bar> \<le> q * pow2 (- 53)"
proof -
  have qpos: "0 < q" using assms(1) pow2_pos[of "- 1022"] by linarith
  then have q0: "q \<noteq> 0" and qabs: "\<bar>q\<bar> = q" by simp_all
  define e where "e = ilog2 q"
  define u where "u = pow2 (e - 52)"
  define R where "R = round_half_even (q / u)"
  have lo: "pow2 e \<le> \<bar>q\<bar>" unfolding e_def by (rule ilog2_lower[OF q0])
  have hi: "\<bar>q\<bar> < pow2 (e + 1)" unfolding e_def by (rule ilog2_upper[OF q0])
  from assms(1) hi qabs have "pow2 (- 1022) < pow2 (e + 1)" by linarith
  then have "- 1022 < e + 1" by (simp only: pow2_less_iff)
  then have e_lo: "- 1022 \<le> e" by simp
  from assms(2) lo qabs have "pow2 e < pow2 1023" by linarith
  then have "e < 1023" by (simp only: pow2_less_iff)
  then have e_hi: "e \<le> 1022" by simp
  have rd: "round_to_double q = Finite (of_int R * u)"
    unfolding R_def u_def by (rule round_to_double_normal[OF lo hi e_lo e_hi])
  have upos: "0 < u" by (simp add: u_def pow2_pos)
  note b = round_half_even_bounds[of "q / u"]
  have "(q / u - 1 / 2) * u \<le> of_int R * u" and "of_int R * u \<le> (q / u + 1 / 2) * u"
    using b upos unfolding R_def by (simp_all add: mult_right_mono less_imp_le)
  then have "q - u / 2 \<le> of_int R * u" and "of_int R * u \<le> q + u / 2"
    using upos by (simp_all add: algebra_simps)
  then have err: "\<bar>of_int R * u - q\<bar> \<le> u / 2" by linarith
  have "pow2 (e - 52) = pow2 e * pow2 (- 52)" by (simp add: pow2_add[symmetric])
  moreover have "pow2 (- 52) / 2 = pow2 (- 53)" by (simp add: pow2_def)
  ultimately have "u / 2 = pow2 e * pow2 (- 53)" by (simp add: u_def)
  also have "\<dots> \<le> q * pow2 (- 53)"
    using lo qabs pow2_pos[of "- 53"] by (simp add: mult_right_mono less_imp_le)
  finally have "u / 2 \<le> q * pow2 (- 53)" .
  with err have "\<bar>of_int R * u - q\<bar> \<le> q * pow2 (- 53)" by linarith
  with rd show ?thesis by blast
qed


text \<open>
  The percentage against exact arithmetic: for a peak count from 1 to 1024 and a
  headcount from 1 to \<open>2 ^ 1022\<close>, the float that the code computes differs from
  \<open>100 * peak_count / headcount\<close> by at most \<open>0.05 + 10\<^sup>-\<^sup>9\<close>.
\<close>

lemma spec_peak_percentage_accuracy:
  assumes "1 \<le> c" and "c \<le> 1024" and "0 < h" and "h \<le> 2 ^ 1022"
  shows "\<exists>x. spec_peak_percentage c h = Inr (Finite x) \<and>
           \<bar>x - 100 * of_int c / of_int h\<bar> \<le> 1 / 20 + 1 / 1000000000"
proof -
  define t :: rat where "t = of_int c / of_int h"
  define eps :: rat where "eps = 1 / 9007199254740992"
  have eps: "pow2 (- 53) = eps" by (simp add: pow2_def eps_def)
  have hpos: "(0::rat) < of_int h" using assms(3) by simp
  have c1: "(1::rat) \<le> of_int c" using assms(1) by simp
  have "(of_int c :: rat) \<le> of_int 1024" using assms(2) by (simp only: of_int_le_iff)
  then have c1024: "(of_int c :: rat) \<le> 1024" by simp
  have h1: "(1::rat) \<le> of_int h" using assms(3) by simp
  have "(of_int h :: rat) \<le> of_int (2 ^ 1022)" using assms(4) by (simp only: of_int_le_iff)
  then have hbig: "(of_int h :: rat) \<le> 2 ^ 1022" by simp
  have tpos: "0 < t" using c1 hpos by (simp add: t_def)
  have t_hi: "t \<le> 1024"
  proof -
    have "t \<le> of_int c" using h1 c1 by (simp add: t_def pos_divide_le_eq mult_le_cancel_left1)
    with c1024 show ?thesis by linarith
  qed
  have t_lo: "pow2 (- 1022) \<le> t"
  proof -
    have "1 / (2 ^ 1022 :: rat) \<le> 1 / of_int h"
      using hbig hpos by (intro divide_left_mono) simp_all
    also have "\<dots> \<le> t" using c1 hpos by (simp add: t_def divide_right_mono)
    finally show ?thesis by (simp add: pow2_def)
  qed
  have small: "pow2 18 \<le> pow2 1023" by (rule pow2_mono) simp
  have p18: "pow2 18 = 262144" by (simp add: pow2_def)
  have "t < pow2 1023" using t_hi small p18 by linarith
  from round_to_double_relative_error[OF t_lo this] obtain ratio
    where ratio: "round_to_double t = Finite ratio" and r_err: "\<bar>ratio - t\<bar> \<le> t * eps"
    by (auto simp: eps)
  have m: "max h 1 = h" using assms(3) by simp
  have div: "int_true_divide c (max h 1) = Inr ratio"
    using ratio assms(3) by (simp add: int_true_divide_def m t_def)
  define q2 where "q2 = ratio * 100"
  have eps_pos: "0 < eps" and eps_small: "eps \<le> 1 / 1000000000000000"
    by (simp_all add: eps_def)
  have te: "0 \<le> t * eps" using tpos eps_pos by simp
  have te_hi: "t * eps \<le> 1024 * eps" using t_hi eps_pos by (simp add: mult_right_mono)
  have te_small: "t * eps \<le> t / 2" using tpos eps_small by (simp add: eps_def)
  have q2_lo: "pow2 (- 1022) \<le> q2" using r_err t_lo te_small tpos unfolding q2_def by linarith
  have q2_hi: "q2 < pow2 1023" using r_err t_hi te_hi eps_small small p18 unfolding q2_def by linarith
  from round_to_double_relative_error[OF q2_lo q2_hi] obtain x2
    where x2: "round_to_double q2 = Finite x2" and x_err: "\<bar>x2 - q2\<bar> \<le> q2 * eps"
    by (auto simp: eps)
  have mul: "float_mul_int ratio 100 = Inr (Finite x2)"
    using x2 by (simp add: float_mul_int_def float_of_int_exact q2_def)
  have q2_bound: "q2 \<le> 102401" using r_err t_hi te_hi eps_small unfolding q2_def by linarith
  have q2_pos: "0 < q2" using q2_lo pow2_pos[of "- 1022"] by linarith
  have q2e: "q2 * eps \<le> 102401 * eps" using q2_bound eps_pos by (simp add: mult_right_mono)
  have q2e0: "0 \<le> q2 * eps" using q2_pos eps_pos by simp
  have q2t: "\<bar>q2 - 100 * t\<bar> \<le> 100 * (t * eps)" using r_err unfolding q2_def by linarith
  have "eps \<le> 1" using eps_small by linarith
  from mult_left_mono[OF this, of q2] q2_pos have "q2 * eps \<le> q2" by simp
  with x_err have x2_nonneg: "0 \<le> x2" by linarith
  define k where "k = round_half_even (x2 * 10)"
  define y :: rat where "y = of_int k / 10"
  note b = round_half_even_bounds[of "x2 * 10"]
  have y_err: "\<bar>y - x2\<bar> \<le> 1 / 20" using b unfolding k_def[symmetric] y_def by linarith
  have y_bound: "\<bar>y\<bar> \<le> 102403"
    using y_err x_err q2_bound q2_pos q2e q2e0 eps_small by linarith
  have "\<exists>x. round_to_double y = Finite x \<and> \<bar>x - y\<bar> \<le> 102403 * eps"
  proof (cases "k \<le> 0")
    case True
    have "- 1 / 20 \<le> y" using y_err x2_nonneg by linarith
    then have "- 1 / 2 \<le> (of_int k :: rat)" by (simp add: y_def)
    then have "(of_int (- 1) :: rat) < of_int k" by simp
    then have "- 1 < k" by (simp only: of_int_less_iff)
    with True have "k = 0" by simp
    then have "y = 0" by (simp add: y_def)
    then show ?thesis using eps_pos by (simp add: round_to_double_0)
  next
    case False
    then have "1 \<le> k" by simp
    then have "(1::rat) \<le> of_int k" by simp
    then have y_lo: "1 / 10 \<le> y" by (simp add: y_def)
    have "pow2 (- 1022) \<le> pow2 (- 4)" by (rule pow2_mono) simp
    moreover have "pow2 (- 4) = 1 / 16" by (simp add: pow2_def)
    ultimately have 1: "pow2 (- 1022) \<le> y" using y_lo by linarith
    have 2: "y < pow2 1023" using y_bound small p18 by linarith
    from round_to_double_relative_error[OF 1 2] obtain x
      where x: "round_to_double y = Finite x" "\<bar>x - y\<bar> \<le> y * eps" by (auto simp: eps)
    have "y * eps \<le> 102403 * eps" using y_bound eps_pos by (simp add: mult_right_mono)
    with x show ?thesis by (intro exI[of _ x]) simp
  qed
  then obtain x where x: "round_to_double y = Finite x" and xy: "\<bar>x - y\<bar> \<le> 102403 * eps"
    by blast
  have rnd: "py_round1 (Finite x2) = Inr (Finite x)"
    using x by (simp add: py_round1_def k_def y_def)
  have spec: "spec_peak_percentage c h = Inr (Finite x)"
    by (simp add: spec_peak_percentage_def div mul rnd)
  have "\<bar>x - 100 * t\<bar> \<le> 1 / 20 + 1 / 1000000000"
    using xy y_err x_err q2e q2t te_hi eps_small by linarith
  then have "\<bar>x - 100 * of_int c / of_int h\<bar> \<le> 1 / 20 + 1 / 1000000000"
    by (simp add: t_def)
  with spec show ?thesis by blast
qed

section \<open>The claims\<close>

subsection \<open>C1: The scenario of June 2025\<close>

text \<open>
  C1. With 20 employees and the default settings (30 percent, no fixed cap), a candidate
  range 2025-06-16 to 2025-06-20 and five existing vacation entries that each cover this
  range, the check returns a peak count of 6, a cap of 6 and a valid verdict. With six
  such entries it returns a peak count of 7, a cap of 6, an invalid verdict and the peak
  day 2025-06-16.
\<close>

theorem scenario_june_2025:
  assumes "\<forall>v\<in>set L5. covers (ymd2ord 2025 6 16) (ymd2ord 2025 6 20) v" and "length L5 = 5"
    and "\<forall>v\<in>set L6. covers (ymd2ord 2025 6 16) (ymd2ord 2025 6 20) v" and "length L6 = 6"
  shows "(\<exists>v. check_concurrent_vacations L5 20 (ymd2ord 2025 6 16) (ymd2ord 2025 6 20) None = Inr v \<and>
            max_concurrent_count v = 6 \<and> max_allowed v = 6 \<and> is_valid v) \<and>
         (\<exists>v. check_concurrent_vacations L6 20 (ymd2ord 2025 6 16) (ymd2ord 2025 6 20) None = Inr v \<and>
            max_concurrent_count v = 7 \<and> max_allowed v = 6 \<and> \<not> is_valid v \<and>
            max_concurrent_day v = Some (ymd2ord 2025 6 16))"
proof -
  from assms(1,2) have "\<forall>v\<in>set L5. covers 739418 739422 v" and "length L5 \<le> 1000"
    by (simp_all add: june_16 june_20)
  from june_verdict[OF this] assms(2) have A: "\<exists>v. check_concurrent_vacations L5 20 739418 739422 None = Inr v \<and>
            max_concurrent_count v = 6 \<and> max_allowed v = 6 \<and> is_valid v"
    by auto
  from assms(3,4) have "\<forall>v\<in>set L6. covers 739418 739422 v" and "length L6 \<le> 1000"
    by (simp_all add: june_16 june_20)
  from june_verdict[OF this] assms(4) have B: "\<exists>v. check_concurrent_vacations L6 20 739418 739422 None = Inr v \<and>
            max_concurrent_count v = 7 \<and> max_allowed v = 6 \<and> \<not> is_valid v \<and>
            max_concurrent_day v = Some 739418"
    by auto
  from A B show ?thesis by (simp only: june_16 june_20) 
qed

theorem scenario_june_2025_witness:
  "(\<exists>v. check_concurrent_vacations (map june_entry [''a'', ''b'', ''c'', ''d'', ''e'']) 20
           (ymd2ord 2025 6 16) (ymd2ord 2025 6 20) None = Inr v \<and>
         max_concurrent_count v = 6 \<and> max_allowed v = 6 \<and> is_valid v) \<and>
   (\<exists>v. check_concurrent_vacations (map june_entry [''a'', ''b'', ''c'', ''d'', ''e'', ''f'']) 20
           (ymd2ord 2025 6 16) (ymd2ord 2025 6 20) None = Inr v \<and>
         max_concurrent_count v = 7 \<and> max_allowed v = 6 \<and> \<not> is_valid v \<and>
         max_concurrent_day v = Some (ymd2ord 2025 6 16))"
proof -
  have c: "covers (ymd2ord 2025 6 16) (ymd2ord 2025 6 20) (june_entry i)" for i
    by (simp add: covers_def june_entry_def june_16 june_20)
  have h5: "\<forall>v\<in>set (map june_entry [''a'', ''b'', ''c'', ''d'', ''e'']).
      covers (ymd2ord 2025 6 16) (ymd2ord 2025 6 20) v" using c by simp
  have h6: "\<forall>v\<in>set (map june_entry [''a'', ''b'', ''c'', ''d'', ''e'', ''f'']).
      covers (ymd2ord 2025 6 16) (ymd2ord 2025 6 20) v" using c by simp
  have l5: "length (map june_entry [''a'', ''b'', ''c'', ''d'', ''e'']) = 5" by simp
  have l6: "length (map june_entry [''a'', ''b'', ''c'', ''d'', ''e'', ''f'']) = 6" by simp
  from scenario_june_2025[OF h5 l5 h6 l6] show ?thesis .
qed

subsection \<open>C2: The cap\<close>




subsection \<open>C3: Failures\<close>

text \<open>
  C3, as claimed: the check fails exactly on malformed input, a start after the end or a
  negative headcount. It has no check of either. For the reversed range from 2025-06-20
  back to 2025-06-16 (no entries, 20 employees) the loop body never runs and the verdict
  has peak count 0 and no peak day; for the headcount -5 (no entries, the day
  2025-06-16) the verdict has the cap 1 and the percentage 0.
\<close>

theorem malformed_input_returns_a_verdict:
  "check_concurrent_vacations [] 20 (ymd2ord 2025 6 20) (ymd2ord 2025 6 16) None
     = Inr \<lparr>is_valid = True, max_concurrent_count = 0, max_allowed = 6,
            max_concurrent_day = None, percentage = Finite 0, total_employees = 20\<rparr> \<and>
   check_concurrent_vacations [] (- 5) (ymd2ord 2025 6 16) (ymd2ord 2025 6 16) None
     = Inr \<lparr>is_valid = True, max_concurrent_count = 1, max_allowed = 1,
            max_concurrent_day = Some (ymd2ord 2025 6 16), percentage = Finite 0,
            total_employees = - 5\<rparr>"
proof -
  have ok1: "(739418::int) < MAXORDINAL \<or> (739418::int) < 739422" by simp
  have p1: "range_peak (overlapping_vacations [] 739422 739418 None) 739422 739418 = (None, 0)"
    by (rule range_peak_empty) (simp add: business_days_of_empty)
  have ok2: "(739418::int) < MAXORDINAL \<or> (739418::int) < 739418" by (simp add: MAXORDINAL_def)
  have "overlapping_vacations [] 739418 739418 None = []"
    by (simp add: overlapping_vacations_def)
  then have p2: "range_peak (overlapping_vacations [] 739418 739418 None) 739418 739418
      = (Some 739418, 1)"
    by (simp add: range_peak_def june_16_only peak_step_def day_count_def)
  have cap2: "compute_max_allowed default_settings (- 5) = Inr 1"
    by (rule compute_max_allowed_nonpos) (simp_all add: fixed_cap_def default_settings_def)
  have pct2: "compute_percentage 1 (- 5) = Inr (Finite 0)"
    by (rule compute_percentage_nonpos) simp
  from check_with_eval[OF ok1 p1 default_cap_20 compute_percentage_zero]
    check_with_eval[OF ok2 p2 cap2 pct2]
  show ?thesis by (simp add: check_concurrent_vacations_def june_16 june_20)
qed

text \<open>
  C3, amended: the check never raises for a violation of the business rule (a peak count
  above the cap gives a verdict that is not valid), and it does not reject malformed
  input either. For a rule with a percentage from 0 to 100, a headcount up to \<open>2 ^ 1023\<close>
  (negative ones included) and a range that ends before \<^verbatim>\<open>date.max\<close> or has the start
  after the end, it returns a verdict, valid exactly when the peak count is at most the
  cap; for a start after the end the peak count is 0 and there is no peak day; for a
  headcount that is not positive the percentage is 0 and, when no fixed cap other than 0
  is set, the cap is 1.
\<close>

theorem check_returns_a_verdict:
  assumes "0 \<le> max_concurrent_percentage settings" and "max_concurrent_percentage settings \<le> 100"
    and "headcount \<le> 2 ^ 1023"
    and "end_dt < MAXORDINAL \<or> end_dt < start_dt"
  shows "\<exists>v. check_concurrent_vacations_with settings entries headcount start_dt end_dt ex = Inr v \<and>
           is_valid v = (max_concurrent_count v \<le> max_allowed v) \<and>
           (end_dt < start_dt \<longrightarrow> max_concurrent_count v = 0 \<and> max_concurrent_day v = None) \<and>
           (headcount \<le> 0 \<longrightarrow>
              percentage v = Finite 0 \<and> (fixed_cap settings = None \<longrightarrow> max_allowed v = 1))"
proof -
  let ?vs = "overlapping_vacations entries start_dt end_dt ex"
  from compute_max_allowed_ok[OF assms(1-3)] obtain m
    where m: "compute_max_allowed settings headcount = Inr m" by blast
  from check_with_verdict[OF assms(4) m, of entries ex] obtain v
    where v: "check_concurrent_vacations_with settings entries headcount start_dt end_dt ex = Inr v"
    by blast
  note fields = check_with_fields[OF v]
  from fields have day: "max_concurrent_day v = fst (range_peak ?vs start_dt end_dt)"
    by (elim conjE)
  from fields have cnt: "max_concurrent_count v = snd (range_peak ?vs start_dt end_dt)"
    by (elim conjE)
  from fields have pct: "compute_percentage (max_concurrent_count v) headcount = Inr (percentage v)"
    by (elim conjE)
  from fields have valid: "is_valid v = (max_concurrent_count v \<le> max_allowed v)"
    by (elim conjE)
  from fields have "compute_max_allowed settings headcount = Inr (max_allowed v)"
    by (elim conjE)
  with m have cap: "max_allowed v = m" by simp
  have rev: "max_concurrent_count v = 0 \<and> max_concurrent_day v = None" if "end_dt < start_dt"
  proof -
    have "range_peak ?vs start_dt end_dt = (None, 0)"
      by (rule range_peak_empty) (rule business_days_of_empty[OF that])
    with day cnt show ?thesis by simp
  qed
  have np: "percentage v = Finite 0 \<and> (fixed_cap settings = None \<longrightarrow> max_allowed v = 1)"
    if "headcount \<le> 0"
  proof
    from compute_percentage_nonpos[OF that, of "max_concurrent_count v"] pct
    show "percentage v = Finite 0" by simp
    show "fixed_cap settings = None \<longrightarrow> max_allowed v = 1"
    proof
      assume "fixed_cap settings = None"
      from compute_max_allowed_nonpos[OF that this] m cap show "max_allowed v = 1" by simp
    qed
  qed
  show ?thesis
  proof (intro exI conjI impI)
    show "check_concurrent_vacations_with settings entries headcount start_dt end_dt ex = Inr v"
      by (rule v)
    show "is_valid v = (max_concurrent_count v \<le> max_allowed v)" by (rule valid)
    show "max_concurrent_count v = 0" if "end_dt < start_dt" using rev[OF that] by simp
    show "max_concurrent_day v = None" if "end_dt < start_dt" using rev[OF that] by simp
    show "percentage v = Finite 0" if "headcount \<le> 0" using np[OF that] by simp
    show "max_allowed v = 1" if "headcount \<le> 0" "fixed_cap settings = None"
      using np[OF that(1)] that(2) by simp
  qed
qed

theorem check_returns_a_verdict_witness:
  "\<exists>v. check_concurrent_vacations_with default_settings [june_entry ''a''] (- 5)
          739422 739418 None = Inr v \<and>
        is_valid v = (max_concurrent_count v \<le> max_allowed v) \<and>
        max_concurrent_count v = 0 \<and> max_concurrent_day v = None \<and>
        percentage v = Finite 0 \<and> max_allowed v = 1"
proof -
  have 1: "0 \<le> max_concurrent_percentage default_settings"
    and 2: "max_concurrent_percentage default_settings \<le> 100"
    by (simp_all add: default_settings_def)
  have 3: "(- 5::int) \<le> 2 ^ 1023" by simp
  have 4: "(739418::int) < MAXORDINAL \<or> (739418::int) < 739422" by simp
  have 5: "fixed_cap default_settings = None" by (simp add: fixed_cap_def default_settings_def)
  from check_returns_a_verdict[OF 1 2 3 4, of "[june_entry ''a'']" None] 5
  show ?thesis by simp
qed

subsection \<open>C4: Business days of a range\<close>

text \<open>
  C4, as claimed: \<open>countBusinessDays\<close> fails with \<open>InvalidRangeError\<close> whenever the start
  is after the end. The function has no such check: for the range from 2025-06-20 back
  to 2025-06-16 the loop body never runs and the result is the count 0, not an error.
\<close>

theorem reversed_range_is_not_an_error:
  "calculate_business_days (ymd2ord 2025 6 20) (ymd2ord 2025 6 16) = Inr 0"
  by (simp only: june_16 june_20 june_20_16)

text \<open>
  C4, amended: for a range that ends before \<^verbatim>\<open>date.max\<close>,
  \<^verbatim>\<open>calculate_business_days\<close> visits every calendar day from the start to the end
  inclusive and returns the number of days whose weekday is Monday to Friday; when the
  start is after the end it does not fail and returns 0.
\<close>

theorem calculate_business_days_counts_weekdays:
  assumes "end_dt < MAXORDINAL"
  shows "calculate_business_days start_dt end_dt =
           Inr (int (length (filter (\<lambda>d. weekday d < 5) [start_dt..end_dt]))) \<and>
         (end_dt < start_dt \<longrightarrow> calculate_business_days start_dt end_dt = Inr 0)"
  using calculate_business_days_count[OF assms, of start_dt]
  by (simp add: business_days_of_def)

theorem calculate_business_days_counts_weekdays_witness:
  "calculate_business_days 739418 739424 = Inr 5 \<and> calculate_business_days 739424 739418 = Inr 0"
proof -
  have 1: "(739424::int) < MAXORDINAL" and 2: "(739418::int) < MAXORDINAL"
    by (simp_all add: MAXORDINAL_def)
  from calculate_business_days_counts_weekdays[OF 1, of 739418]
    calculate_business_days_counts_weekdays[OF 2, of 739424]
  show ?thesis by (simp add: upto_rec1 weekday_def)
qed

subsection \<open>C5: The percentage\<close>

text \<open>
  C5, as claimed: the percentage of the verdict is
  \<open>round(peakCount / max(totalEmployees, 1) * 100, 1)\<close>, so for no employees it is the peak
  count times 100. The code computes the percentage only \<^verbatim>\<open>if total_employees > 0\<close> and
  gives 0 otherwise: for the one-day range 2025-06-16, no entries and no employees the
  peak count is 1 and the percentage is 0, where the formula of the claim gives 100.
\<close>

theorem percentage_without_employees_is_zero:
  "check_concurrent_vacations [] 0 (ymd2ord 2025 6 16) (ymd2ord 2025 6 16) None
     = Inr \<lparr>is_valid = True, max_concurrent_count = 1, max_allowed = 1,
            max_concurrent_day = Some (ymd2ord 2025 6 16), percentage = Finite 0,
            total_employees = 0\<rparr> \<and>
   spec_peak_percentage 1 0 = Inr (Finite 100)"
proof -
  have ok: "(739418::int) < MAXORDINAL \<or> (739418::int) < 739418" by (simp add: MAXORDINAL_def)
  have "overlapping_vacations [] 739418 739418 None = []"
    by (simp add: overlapping_vacations_def)
  then have p: "range_peak (overlapping_vacations [] 739418 739418 None) 739418 739418
      = (Some 739418, 1)"
    by (simp add: range_peak_def june_16_only peak_step_def day_count_def)
  have pct: "compute_percentage 1 0 = Inr (Finite 0)"
    by (rule compute_percentage_nonpos) simp
  from check_with_eval[OF ok p compute_max_allowed_default_0 pct] spec_peak_percentage_1_0
  show ?thesis by (simp add: check_concurrent_vacations_def june_16)
qed

text \<open>
  C5, amended: for every input with the start not after the end (a range that ends before
  \<^verbatim>\<open>date.max\<close>, a rule with a percentage from 0 to 100, a headcount up to \<open>2 ^ 1022\<close>),
  the percentage of the verdict is \<open>round(peakCount / totalEmployees * 100, 1)\<close>, in the
  floating-point arithmetic of the code, when the headcount is positive, which is within
  \<open>0.05 + 10\<^sup>-\<^sup>9\<close> of the exact \<open>100 * peakCount / totalEmployees\<close>; and it is 0 when
  the headcount is 0 or negative.
\<close>

theorem percentage_of_the_peak:
  assumes "start_dt \<le> end_dt" and "end_dt < MAXORDINAL"
    and "0 \<le> max_concurrent_percentage settings" and "max_concurrent_percentage settings \<le> 100"
    and "headcount \<le> 2 ^ 1022"
  shows "\<exists>v. check_concurrent_vacations_with settings entries headcount start_dt end_dt ex = Inr v \<and>
           (0 < headcount \<longrightarrow>
              spec_peak_percentage (max_concurrent_count v) headcount = Inr (percentage v) \<and>
              (\<exists>x. percentage v = Finite x \<and>
                 \<bar>x - 100 * of_int (max_concurrent_count v) / of_int headcount\<bar>
                   \<le> 1 / 20 + 1 / 1000000000)) \<and>
           (headcount \<le> 0 \<longrightarrow> percentage v = Finite 0)"
proof -
  let ?vs = "overlapping_vacations entries start_dt end_dt ex"
  have "(2::int) ^ 1022 \<le> 2 ^ 1023" by (rule power_increasing) simp_all
  with assms(5) have h: "headcount \<le> 2 ^ 1023" by (rule order_trans)
  from compute_max_allowed_ok[OF assms(3,4) h] obtain m
    where m: "compute_max_allowed settings headcount = Inr m" by blast
  have ok: "end_dt < MAXORDINAL \<or> end_dt < start_dt" using assms(2) by simp
  from check_with_verdict[OF ok m, of entries ex] obtain v
    where v: "check_concurrent_vacations_with settings entries headcount start_dt end_dt ex = Inr v"
    by blast
  note fields = check_with_fields[OF v]
  from fields
  have pct: "compute_percentage (max_concurrent_count v) headcount = Inr (percentage v)"
    by (elim conjE)
  from fields
  have cnt: "max_concurrent_count v = snd (range_peak ?vs start_dt end_dt)"
    by (elim conjE)
  have bounds: "0 \<le> max_concurrent_count v \<and> max_concurrent_count v \<le> 1024"
    unfolding cnt range_peak_def by (rule peak_count_bounds[OF length_overlapping_vacations])
  have spec: "spec_peak_percentage (max_concurrent_count v) headcount = Inr (percentage v)"
    if "0 < headcount"
    using pct by (simp only: compute_percentage_pos[OF that])
  have near: "\<exists>x. percentage v = Finite x \<and>
      \<bar>x - 100 * of_int (max_concurrent_count v) / of_int headcount\<bar> \<le> 1 / 20 + 1 / 1000000000"
    if pos: "0 < headcount"
  proof (cases "max_concurrent_count v = 0")
    case True
    with pct compute_percentage_zero[of headcount] have "percentage v = Finite 0" by simp
    with True show ?thesis by simp
  next
    case False
    with bounds have "1 \<le> max_concurrent_count v" and "max_concurrent_count v \<le> 1024" by simp_all
    from spec_peak_percentage_accuracy[OF this pos assms(5)] spec[OF pos]
    show ?thesis by auto
  qed
  have zero: "percentage v = Finite 0" if "headcount \<le> 0"
    using pct compute_percentage_nonpos[OF that, of "max_concurrent_count v"] by simp
  have "(0 < headcount \<longrightarrow>
           spec_peak_percentage (max_concurrent_count v) headcount = Inr (percentage v) \<and>
           (\<exists>x. percentage v = Finite x \<and>
              \<bar>x - 100 * of_int (max_concurrent_count v) / of_int headcount\<bar>
                \<le> 1 / 20 + 1 / 1000000000)) \<and>
        (headcount \<le> 0 \<longrightarrow> percentage v = Finite 0)"
    using spec near zero by blast
  with v show ?thesis by blast
qed

theorem percentage_of_the_peak_witness:
  "\<exists>v. check_concurrent_vacations_with default_settings
          (map june_entry [''a'', ''b'', ''c'', ''d'', ''e'']) 20 739418 739422 None = Inr v \<and>
        max_concurrent_count v = 6 \<and> percentage v = Finite 30"
proof -
  have 1: "(739418::int) \<le> 739422" by simp
  have 2: "(739422::int) < MAXORDINAL" by (simp add: MAXORDINAL_def)
  have 3: "0 \<le> max_concurrent_percentage default_settings"
    and 4: "max_concurrent_percentage default_settings \<le> 100"
    by (simp_all add: default_settings_def)
  have 5: "(20::int) \<le> 2 ^ 1022" by simp
  from percentage_of_the_peak[OF 1 2 3 4 5, of "map june_entry [''a'', ''b'', ''c'', ''d'', ''e'']" None]
  obtain v where v: "check_concurrent_vacations_with default_settings
          (map june_entry [''a'', ''b'', ''c'', ''d'', ''e'']) 20 739418 739422 None = Inr v"
    and p: "spec_peak_percentage (max_concurrent_count v) 20 = Inr (percentage v)"
    by auto
  have "\<forall>e\<in>set (map june_entry [''a'', ''b'', ''c'', ''d'', ''e'']). covers 739418 739422 e"
    by (simp add: covers_def june_entry_def)
  from june_verdict[OF this] v have c: "max_concurrent_count v = 6"
    by (simp add: check_concurrent_vacations_def)
  from p c have "percentage v = Finite 30" by (simp add: spec_peak_percentage_6_20)
  with v c show ?thesis by blast
qed

subsection \<open>C6: Exclusion\<close>




subsection \<open>C7: The peak day\<close>

text \<open>
  C7. The claim covers every candidate range with the start not after the end and at
  least one business day. The one-day range 9999-12-31 (\<^verbatim>\<open>date.max\<close>) is such a range:
  its only day is a Friday. The claim gives the verdict the peak day 9999-12-31; the
  function returns no verdict: after the day is checked,
  \<^verbatim>\<open>current_date += timedelta(days=1)\<close> raises \<^verbatim>\<open>OverflowError\<close>.
\<close>

theorem peak_day_overflow_at_date_max:
  "business_days_of (ymd2ord 9999 12 31) (ymd2ord 9999 12 31) = [ymd2ord 9999 12 31] \<and>
   check_concurrent_vacations [] 20 (ymd2ord 9999 12 31) (ymd2ord 9999 12 31) None
     = Inl OverflowError"
proof -
  have "business_days_of MAXORDINAL MAXORDINAL = [MAXORDINAL]"
    by (rule business_days_of_single) (simp add: weekday_date_max)
  moreover have "check_concurrent_vacations [] 20 MAXORDINAL MAXORDINAL None = Inl OverflowError"
    unfolding check_concurrent_vacations_def by (rule check_with_overflow) simp_all
  ultimately show ?thesis by (simp only: max_ordinal) 
qed

subsection \<open>C8: Bounds of the count of business days\<close>

text \<open>
  C8. The claim bounds the count of every range by 0 and the number of its calendar days.
  For the one-day range 9999-12-31 (\<^verbatim>\<open>date.max\<close>, a Friday) the claim gives a count
  between 0 and 1; the function returns no count: after the day is visited,
  \<^verbatim>\<open>current_date += timedelta(days=1)\<close> raises \<^verbatim>\<open>OverflowError\<close>.
\<close>

theorem business_days_overflow_at_date_max:
  "calculate_business_days (ymd2ord 9999 12 31) (ymd2ord 9999 12 31) = Inl OverflowError"
  by (simp only: max_ordinal) (rule calculate_business_days_overflow, simp_all)

subsection \<open>C9: Ranges without a business day\<close>




subsection \<open>C10: Monotonicity of the peak count\<close>


end
